theory Spec2Isabelle
  imports Complex_Main
begin

section \<open>Characters and strings\<close>

text \<open>
  A Python \<open>str\<close> is modelled as a \<open>string\<close> whose characters are the code points
  below 256; lengths count characters, as Python's \<open>len\<close> does.  The character classes
  below are Python's on that range: \<open>str.isspace\<close> and the regular expression class
  \<open>\s\<close> agree there, \<open>\w\<close> is the alphanumerics and the underscore, and matching under
  \<open>re.IGNORECASE\<close> is equality after \<open>str.lower\<close>.
\<close>

definition nl :: char where
  "nl = CHR 0x0A"

definition is_space :: "char \<Rightarrow> bool" where
  "is_space c = (let n = (of_char c :: nat)
                 in (9 \<le> n \<and> n \<le> 13) \<or> (28 \<le> n \<and> n \<le> 32) \<or> n = 133 \<or> n = 160)"

definition is_word :: "char \<Rightarrow> bool" where
  "is_word c = (let n = (of_char c :: nat)
                in (48 \<le> n \<and> n \<le> 57) \<or> (65 \<le> n \<and> n \<le> 90) \<or> n = 95 \<or> (97 \<le> n \<and> n \<le> 122)
                   \<or> n = 170 \<or> n = 178 \<or> n = 179 \<or> n = 181 \<or> n = 185 \<or> n = 186
                   \<or> (188 \<le> n \<and> n \<le> 190) \<or> (192 \<le> n \<and> n \<le> 214)
                   \<or> (216 \<le> n \<and> n \<le> 246) \<or> 248 \<le> n)"

definition lower_char :: "char \<Rightarrow> char" where
  "lower_char c = (let n = (of_char c :: nat)
                   in if (65 \<le> n \<and> n \<le> 90) \<or> (192 \<le> n \<and> n \<le> 214) \<or> (216 \<le> n \<and> n \<le> 222)
                      then char_of (n + 32) else c)"

definition lower :: "string \<Rightarrow> string" where
  "lower s = map lower_char s"

text \<open>\<open>str.strip()\<close>: leading and trailing whitespace removed.\<close>

definition strip :: "string \<Rightarrow> string" where
  "strip s = rev (dropWhile is_space (rev (dropWhile is_space s)))"

text \<open>\<open>str.replace('\n', ' ')\<close>.\<close>

definition replace_nl :: "string \<Rightarrow> string" where
  "replace_nl s = map (\<lambda>c. if c = nl then CHR '' '' else c) s"

text \<open>\<open>str.split('\n')\<close>: the pieces between newlines; never an empty list.\<close>

fun split_nl :: "string \<Rightarrow> string list" where
  "split_nl [] = [[]]"
| "split_nl (c # cs) =
     (if c = nl then [] # split_nl cs
      else (case split_nl cs of [] \<Rightarrow> [[c]] | l # ls \<Rightarrow> (c # l) # ls))"

section \<open>Section splitter: \<open>parse_talk_sections\<close>\<close>

text \<open>
  \<open>wikipedia_ai_enforcement_analyzer.py\<close> and
  \<open>wikipedia_ai_enforcement_targeted_analyzer.py\<close> carry the same method:
  \<^verbatim>\<open>
    header_pattern = r'^(={2,})\s*([^=]+?)\s*\1\s*$'
    lines = content.split('\n')
    current_section = {'title': 'Introduction', 'content': ''}
    for line in lines:
        match = re.match(header_pattern, line)
        if match:
            if current_section['content']:
                sections.append(current_section)
            current_section = {'title': match.group(2).strip(), 'content': ''}
        else:
            current_section['content'] += line + '\n'
    if current_section['content']:
        sections.append(current_section)
    return sections
  \<close>
  A line (it holds no newline) matches \<open>header_pattern\<close> exactly when it is a run of
  \<open>k \<ge> 2\<close> equals signs, a non-empty stretch free of equals signs, the same number
  \<open>k\<close> of equals signs, and then only whitespace: group 1 cannot stop short of the
  whole leading run because group 2 must start on a character other than \<open>=\<close>, and the
  back-reference must use up the whole second run because only whitespace may follow
  it.  Group 2 is the middle stretch without its surrounding whitespace (or one
  whitespace character when the stretch is all whitespace), so that
  \<open>match.group(2).strip()\<close> is the stripped middle stretch.
\<close>

record talk_section =
  title :: string
  content :: string

definition header_match :: "string \<Rightarrow> string option" where
  "header_match line =
     (let eq = (\<lambda>c. c = CHR ''='');
          a = takeWhile eq line; r1 = dropWhile eq line;
          m = takeWhile (\<lambda>c. \<not> eq c) r1; r2 = dropWhile (\<lambda>c. \<not> eq c) r1;
          b = takeWhile eq r2; r3 = dropWhile eq r2
      in if 2 \<le> length a \<and> m \<noteq> [] \<and> length b = length a \<and> list_all is_space r3
         then Some (strip m) else None)"

text \<open>
  The loop over the lines, with the list of sections emitted so far and the current
  section as its state; \<open>save\<close> is the guarded append.
\<close>

definition save :: "talk_section \<Rightarrow> talk_section list \<Rightarrow> talk_section list" where
  "save cur sections = (if content cur \<noteq> [] then sections @ [cur] else sections)"

fun parse_lines :: "string list \<Rightarrow> talk_section list \<Rightarrow> talk_section \<Rightarrow> talk_section list" where
  "parse_lines [] sections cur = save cur sections"
| "parse_lines (line # rest) sections cur =
     (case header_match line of
        Some t \<Rightarrow> parse_lines rest (save cur sections) \<lparr>title = t, content = []\<rparr>
      | None \<Rightarrow> parse_lines rest sections (cur\<lparr>content := content cur @ line @ [nl]\<rparr>))"

definition parse_talk_sections :: "string \<Rightarrow> talk_section list" where
  "parse_talk_sections doc =
     parse_lines (split_nl doc) [] \<lparr>title = ''Introduction'', content = []\<rparr>"

section \<open>Pattern matcher\<close>

subsection \<open>Literal matching under \<open>re.IGNORECASE\<close>\<close>

text \<open>\<open>ci_prefix lit s\<close>: the escaped literal \<open>lit\<close> matches at the start of \<open>s\<close>.\<close>

definition ci_prefix :: "string \<Rightarrow> string \<Rightarrow> bool" where
  "ci_prefix lit s = (length lit \<le> length s \<and> lower (take (length lit) s) = lower lit)"

text \<open>
  \<open>re.search(lit, text, re.IGNORECASE)\<close> as a truth value, for a pattern without
  metacharacters (the indicator lists hold letters, spaces and hyphens only).
\<close>

fun re_search :: "string \<Rightarrow> string \<Rightarrow> bool" where
  "re_search lit [] = ci_prefix lit []"
| "re_search lit (c # cs) = (ci_prefix lit (c # cs) \<or> re_search lit cs)"

text \<open>\<open>needle.lower() in haystack.lower()\<close>.\<close>

definition contains_lower :: "string \<Rightarrow> string \<Rightarrow> bool" where
  "contains_lower needle haystack = re_search needle haystack"

subsection \<open>Context windows of \<open>analyze_afd_text\<close>\<close>

text \<open>
  \<^verbatim>\<open>
    for indicator in indicators:
        if re.search(indicator, text, re.IGNORECASE):
            pattern = re.compile(f'.{{0,100}}{re.escape(indicator)}.{{0,100}}',
                                 re.IGNORECASE | re.DOTALL)
            matches = pattern.findall(text)
            if matches:
                analysis['detection_indicators'].append({
                    'indicator': indicator,
                    'count': len(matches),
                    'examples': [m.replace('\n', ' ')[:200] for m in matches[:2]]
                })
  \<close>
  At a start position the greedy \<open>.{0,100}\<close> first takes as many characters as there
  are (at most \<open>radius = 100\<close>) and gives them back one at a time until the literal
  matches: \<open>find_last_within\<close> returns the largest offset \<open>k\<close> at which it does.  The
  second \<open>.{0,100}\<close> then takes up to 100 characters after the literal.
  \<open>findall\<close> resumes at the end of each match and moves one character on where no
  match starts.
\<close>

definition radius :: nat where
  "radius = 100"

fun find_last_within :: "nat \<Rightarrow> string \<Rightarrow> string \<Rightarrow> nat option" where
  "find_last_within 0 lit xs = (if ci_prefix lit xs then Some 0 else None)"
| "find_last_within (Suc n) lit xs =
     (if ci_prefix lit (drop (Suc n) xs) then Some (Suc n) else find_last_within n lit xs)"

function findall_ctx :: "string \<Rightarrow> string \<Rightarrow> string list" where
  "findall_ctx lit xs =
     (if xs = [] then (if lit = [] then [[]] else [])
      else (case find_last_within (min radius (length xs)) lit xs of
              None \<Rightarrow> findall_ctx lit (tl xs)
            | Some k \<Rightarrow>
                (let e = k + length lit + min radius (length xs - k - length lit)
                 in take e xs # findall_ctx lit (drop (max 1 e) xs))))"
  by pat_completeness auto
termination
  by (relation "measure (\<lambda>(lit, xs). length xs)") auto

declare findall_ctx.simps [simp del]

record indicator_entry =
  indicator :: string
  count :: nat
  examples :: "string list"

definition indicators :: "string list" where
  "indicators =
     [''AI-generated'', ''ChatGPT'', ''GPT'', ''language model'', ''LLM'',
      ''sounds like AI'', ''looks like AI'', ''reads like AI'',
      ''AI slop'', ''AI writing'', ''AI-written'', ''machine-generated'',
      ''bot-written'', ''automated'', ''hallucinated'', ''hallucination'',
      ''word salad'', ''generic'', ''non-human'', ''robotic'']"

definition indicator_scan :: "string \<Rightarrow> string \<Rightarrow> indicator_entry list" where
  "indicator_scan ind text =
     (if re_search ind text
      then (let matches = findall_ctx ind text
            in if matches \<noteq> []
               then [\<lparr>indicator = ind, count = length matches,
                      examples = map (\<lambda>m. take 200 (replace_nl m)) (take 2 matches)\<rparr>]
               else [])
      else [])"

definition find_detection_indicators :: "string list \<Rightarrow> string \<Rightarrow> indicator_entry list" where
  "find_detection_indicators inds text = concat (map (\<lambda>ind. indicator_scan ind text) inds)"

text \<open>
  \<open>analyze_afd_text(text, article_name)\<close> starts with \<open>if not text: return None\<close>; the
  text comes from \<open>fetch_afd_full_text\<close>, which returns \<open>None\<close> when the fetch failed,
  so it is a \<open>string option\<close> here.  Of the dictionary returned otherwise the model
  keeps the article, the text length and the detection indicators; the tools,
  outcomes, votes and policies are found by further searches of the same text that
  do not touch these three.
\<close>

record analysis =
  article :: string
  text_length :: nat
  detection_indicators :: "indicator_entry list"

definition analyze_afd_text :: "string option \<Rightarrow> string \<Rightarrow> analysis option" where
  "analyze_afd_text text article_name =
     (case text of
        None \<Rightarrow> None
      | Some t \<Rightarrow>
          if t = [] then None
          else Some \<lparr>article = article_name, text_length = length t,
                     detection_indicators = find_detection_indicators indicators t\<rparr>)"

text \<open>
  The number of non-overlapping occurrences of a literal found by scanning for it
  alone, from left to right (what \<open>len(re.findall(re.escape(lit), text,
  re.IGNORECASE))\<close> counts): the reference the reported \<open>count\<close> is compared with.
\<close>

function count_occurrences :: "string \<Rightarrow> string \<Rightarrow> nat" where
  "count_occurrences lit xs =
     (if xs = [] \<or> lit = [] then 0
      else if ci_prefix lit xs then Suc (count_occurrences lit (drop (length lit) xs))
      else count_occurrences lit (tl xs))"
  by pat_completeness auto
termination
  by (relation "measure (\<lambda>(lit, xs). length xs)") auto

subsection \<open>Splitting at headings with \<open>re.split\<close>\<close>

text \<open>
  \<open>extract_ai_references\<close> splits with \<open>re.split(r'\n==+\s*([^=]+)\s*==+', wikitext)\<close>
  and \<open>extract_ai_discussions\<close> with \<open>re.split(r'\n=+\s*([^=]+)\s*=+', content)\<close>;
  \<open>k\<close> is the least number of equals signs (2 and 1).  A match starts at a newline
  followed by at least \<open>k\<close> equals signs, a non-empty stretch without equals signs
  (it may hold newlines) and again at least \<open>k\<close> equals signs, all of which it
  consumes.  The group is the stretch after its leading whitespace, or its last
  character when it is all whitespace.  The result alternates text and group.
\<close>

definition header_at :: "nat \<Rightarrow> string \<Rightarrow> (string \<times> string) option" where
  "header_at k s =
     (case s of
        [] \<Rightarrow> None
      | c # s1 \<Rightarrow>
          if c \<noteq> nl then None
          else (let eq = (\<lambda>c. c = CHR ''='');
                    a = takeWhile eq s1; r1 = dropWhile eq s1;
                    m = takeWhile (\<lambda>c. \<not> eq c) r1; r2 = dropWhile (\<lambda>c. \<not> eq c) r1;
                    b = takeWhile eq r2; r3 = dropWhile eq r2;
                    g = dropWhile is_space m
                in if k \<le> length a \<and> m \<noteq> [] \<and> k \<le> length b
                   then Some (if g = [] then [last m] else g, r3) else None))"

fun find_header :: "nat \<Rightarrow> string \<Rightarrow> (string \<times> string \<times> string) option" where
  "find_header k [] = None"
| "find_header k (c # cs) =
     (case header_at k (c # cs) of
        Some (t, rest) \<Rightarrow> Some ([], t, rest)
      | None \<Rightarrow>
          (case find_header k cs of
             None \<Rightarrow> None
           | Some (pre, t, rest) \<Rightarrow> Some (c # pre, t, rest)))"

lemma header_at_shorter: "header_at k s = Some (t, rest) \<Longrightarrow> length rest < length s"
proof -
  assume h: "header_at k s = Some (t, rest)"
  have le: "\<And>P (xs :: string). length (dropWhile P xs) \<le> length xs"
    by (simp add: length_dropWhile_le)
  from h obtain s1 where s: "s = nl # s1"
    by (cases s) (auto simp: header_at_def split: if_splits)
  from h s have "rest = dropWhile (\<lambda>c. c = CHR ''='')
                   (dropWhile (\<lambda>c. c \<noteq> CHR ''='') (dropWhile (\<lambda>c. c = CHR ''='') s1))"
    by (auto simp: header_at_def Let_def split: if_splits)
  then have "length rest \<le> length s1"
    by (metis le order_trans)
  with s show ?thesis by simp
qed

lemma find_header_shorter:
  "find_header k s = Some (pre, t, rest) \<Longrightarrow> length rest < length s"
proof (induction s arbitrary: pre)
  case Nil
  then show ?case by simp
next
  case (Cons c cs)
  show ?case
  proof (cases "header_at k (c # cs)")
    case (Some p)
    with Cons.prems header_at_shorter [of k "c # cs" "fst p" "snd p"] show ?thesis
      by (cases p) auto
  next
    case None
    with Cons.prems obtain pre' where "find_header k cs = Some (pre', t, rest)"
      by (auto split: option.splits)
    with Cons.IH show ?thesis by fastforce
  qed
qed

function re_split_headers :: "nat \<Rightarrow> string \<Rightarrow> string list" where
  "re_split_headers k text =
     (case find_header k text of
        None \<Rightarrow> [text]
      | Some (pre, t, rest) \<Rightarrow> pre # t # re_split_headers k rest)"
  by pat_completeness auto
termination
  by (relation "measure (\<lambda>(k, text). length text)") (auto dest: find_header_shorter)

subsection \<open>\<open>extract_ai_references\<close>\<close>

text \<open>
  \<^verbatim>\<open>
    for i, part in enumerate(sections):
        if i % 2 == 0:  # Content
            section_content = part
            for keyword in self.ai_related_keywords:
                pattern = r'\b' + re.escape(keyword) + r'\b'
                matches = re.finditer(pattern, section_content, re.IGNORECASE)
                for match in matches:
                    start = max(0, match.start() - 100)
                    end = min(len(section_content), match.end() + 100)
                    context = section_content[start:end].strip()
                    ai_mentions.append({'keyword': keyword, 'section': current_section,
                                        'context': context, 'position': match.start()})
            if any(keyword.lower() in section_content.lower() for keyword in ...):
                ai_sections.append({'section_title': current_section,
                                    'content': section_content[:1000],
                                    'ai_keywords_found': [kw for kw in ... if kw.lower() in ...]})
        else:  # Section header
            current_section = part.strip()
  \<close>
  \<open>\b\<close> holds at a position when exactly one of the characters before and after it
  is a word character, the ends of the text counting as non-word.
\<close>

definition ai_related_keywords :: "string list" where
  "ai_related_keywords =
     [''artificial intelligence'', ''AI'', ''machine learning'', ''ML'',
      ''bot'', ''automated'', ''automation'', ''algorithm'', ''algorithmic'',
      ''neural network'', ''deep learning'', ''chatbot'', ''language model'',
      ''GPT'', ''ChatGPT'', ''generative'', ''AI-generated'', ''AI-assisted'',
      ''computer-generated'', ''synthetic'', ''auto-generated'']"

definition word_at :: "string \<Rightarrow> nat \<Rightarrow> bool" where
  "word_at text p = (p < length text \<and> is_word (text ! p))"

definition word_boundary :: "string \<Rightarrow> nat \<Rightarrow> bool" where
  "word_boundary text p = ((0 < p \<and> word_at text (p - 1)) \<noteq> word_at text p)"

definition word_match :: "string \<Rightarrow> string \<Rightarrow> nat \<Rightarrow> bool" where
  "word_match kw text i =
     (ci_prefix kw (drop i text) \<and> word_boundary text i \<and> word_boundary text (i + length kw))"

text \<open>The start offsets of the matches \<open>re.finditer\<close> yields, searching from offset \<open>i\<close>.\<close>

function finditer_word :: "string \<Rightarrow> string \<Rightarrow> nat \<Rightarrow> nat list" where
  "finditer_word kw text i =
     (if length text < i then []
      else if word_match kw text i then i # finditer_word kw text (i + max 1 (length kw))
      else finditer_word kw text (Suc i))"
  by pat_completeness auto
termination
  by (relation "measure (\<lambda>(kw, text, i). Suc (length text) - i)") auto

declare finditer_word.simps [simp del]

record mention =
  m_keyword :: string
  m_section :: string
  m_context :: string
  m_position :: nat

text \<open>\<open>section_content[start:end]\<close> for \<open>0 \<le> start\<close>.\<close>

definition slice :: "string \<Rightarrow> nat \<Rightarrow> nat \<Rightarrow> string" where
  "slice s start stop = take (stop - start) (drop start s)"

definition mention_at :: "string \<Rightarrow> string \<Rightarrow> string \<Rightarrow> nat \<Rightarrow> mention" where
  "mention_at kw current_section section_content pos =
     (let start = nat (max 0 (int pos - 100));
          stop = min (length section_content) (pos + length kw + 100)
      in \<lparr>m_keyword = kw, m_section = current_section,
          m_context = strip (slice section_content start stop), m_position = pos\<rparr>)"

definition section_mentions :: "string list \<Rightarrow> string \<Rightarrow> string \<Rightarrow> mention list" where
  "section_mentions keywords current_section section_content =
     concat (map (\<lambda>kw. map (mention_at kw current_section section_content)
                          (finditer_word kw section_content 0)) keywords)"

record ai_section =
  section_title :: string
  section_text :: string
  ai_keywords_found :: "string list"

definition section_summary :: "string list \<Rightarrow> string \<Rightarrow> string \<Rightarrow> ai_section list" where
  "section_summary keywords current_section section_content =
     (if list_ex (\<lambda>kw. contains_lower kw section_content) keywords
      then [\<lparr>section_title = current_section, section_text = take 1000 section_content,
             ai_keywords_found = filter (\<lambda>kw. contains_lower kw section_content) keywords\<rparr>]
      else [])"

text \<open>
  The loop over \<open>enumerate(sections)\<close>: \<open>is_content\<close> is \<open>i % 2 == 0\<close>, and the state is
  the current section title with the two lists built so far.
\<close>

fun scan_parts ::
  "string list \<Rightarrow> string list \<Rightarrow> bool \<Rightarrow> string \<Rightarrow> mention list \<times> ai_section list
     \<Rightarrow> mention list \<times> ai_section list" where
  "scan_parts keywords [] is_content current_section acc = acc"
| "scan_parts keywords (part # parts) is_content current_section (ms, ss) =
     (if is_content
      then scan_parts keywords parts False current_section
             (ms @ section_mentions keywords current_section part,
              ss @ section_summary keywords current_section part)
      else scan_parts keywords parts True (strip part) (ms, ss))"

record ai_references =
  ai_found :: bool
  ai_sections :: "ai_section list"
  ai_mentions :: "mention list"
  total_ai_references :: nat
  unique_ai_terms :: "string set"

text \<open>
  \<open>wikitext\<close> is \<open>page_content.get('wikitext', '')\<close>.  The early return for an empty
  text has no \<open>unique_ai_terms\<close> key; the model gives it the empty set.
\<close>

definition extract_ai_references :: "string list \<Rightarrow> string \<Rightarrow> ai_references" where
  "extract_ai_references keywords wikitext =
     (if wikitext = []
      then \<lparr>ai_found = False, ai_sections = [], ai_mentions = [], total_ai_references = 0,
            unique_ai_terms = {}\<rparr>
      else (let (ms, ss) = scan_parts keywords (re_split_headers 2 wikitext) True
                             ''Introduction'' ([], [])
            in \<lparr>ai_found = (0 < length ms), ai_sections = ss, ai_mentions = ms,
                total_ai_references = length ms, unique_ai_terms = set (map m_keyword ms)\<rparr>))"

subsection \<open>\<open>extract_ai_discussions\<close>\<close>

text \<open>
  \<^verbatim>\<open>
    if not content:
        return []
    discussions = []
    sections = re.split(r'\n=+\s*([^=]+)\s*=+', content)
    current_section = "Introduction"
    for i, part in enumerate(sections):
        if i % 2 == 0:  # Content
            section_content = part
            ai_found = False
            for keyword in self.ai_discussion_keywords:
                if keyword.lower() in section_content.lower():
                    ai_found = True
                    break
            if ai_found:
                discussion_threads = self.extract_discussion_threads(section_content,
                                                                     current_section)
                discussions.extend(discussion_threads)
        else:  # Section header
            current_section = part.strip()
    return discussions
  \<close>
  The content comes from a fetch that returns \<open>None\<close> on failure, so it is a
  \<open>string option\<close>.  In \<open>extract_discussion_threads\<close> the comments are the pieces
  \<open>re.split(signature_pattern, section_content)\<close> returns; that split is the
  parameter \<open>split_signatures\<close>, and the rest of the method is as in the source:
  \<^verbatim>\<open>
    for i in range(0, len(comments)-2, 3):
        comment_text = comments[i].strip()
        if len(comment_text) > 50:
            ai_keywords_found = [keyword for keyword in keywords
                                 if keyword.lower() in comment_text.lower()]
            if ai_keywords_found:
                threads.append({'section': section_title,
                                'comment_preview': comment_text[:300] + '...'
                                    if len(comment_text) > 300 else comment_text,
                                'ai_keywords': ai_keywords_found,
                                'estimated_length': len(comment_text)})
  \<close>
\<close>

record thread =
  thread_section :: string
  comment_preview :: string
  ai_keywords :: "string list"
  estimated_length :: nat

text \<open>The elements at indices \<open>0, 3, 6, ...\<close> below \<open>len(comments) - 2\<close>.\<close>

fun every_third :: "string list \<Rightarrow> string list" where
  "every_third (a # b # c # rest) = a # every_third rest"
| "every_third _ = []"

definition thread_of :: "string list \<Rightarrow> string \<Rightarrow> string \<Rightarrow> thread list" where
  "thread_of keywords sec_title comment =
     (let comment_text = strip comment;
          found = filter (\<lambda>kw. contains_lower kw comment_text) keywords
      in if 50 < length comment_text \<and> found \<noteq> []
         then [\<lparr>thread_section = sec_title,
                comment_preview = (if 300 < length comment_text
                                   then take 300 comment_text @ ''...'' else comment_text),
                ai_keywords = found, estimated_length = length comment_text\<rparr>]
         else [])"

definition extract_discussion_threads ::
  "(string \<Rightarrow> string list) \<Rightarrow> string list \<Rightarrow> string \<Rightarrow> string \<Rightarrow> thread list" where
  "extract_discussion_threads split_signatures keywords section_content sec_title =
     concat (map (thread_of keywords sec_title)
                 (every_third (split_signatures section_content)))"

fun discussion_parts ::
  "(string \<Rightarrow> string list) \<Rightarrow> string list \<Rightarrow> string list \<Rightarrow> bool \<Rightarrow> string \<Rightarrow> thread list
     \<Rightarrow> thread list" where
  "discussion_parts split_signatures keywords [] is_content current_section discussions =
     discussions"
| "discussion_parts split_signatures keywords (part # parts) is_content current_section
     discussions =
     (if is_content
      then discussion_parts split_signatures keywords parts False current_section
             (if list_ex (\<lambda>kw. contains_lower kw part) keywords
              then discussions
                   @ extract_discussion_threads split_signatures keywords part current_section
              else discussions)
      else discussion_parts split_signatures keywords parts True (strip part) discussions)"

definition extract_ai_discussions ::
  "(string \<Rightarrow> string list) \<Rightarrow> string list \<Rightarrow> string option \<Rightarrow> thread list" where
  "extract_ai_discussions split_signatures keywords content' =
     (case content' of
        None \<Rightarrow> []
      | Some c \<Rightarrow>
          if c = [] then []
          else discussion_parts split_signatures keywords (re_split_headers 1 c) True
                 ''Introduction'' [])"

section \<open>Aggregator: frequency tables and top-N\<close>

text \<open>
  A \<open>Counter\<close> or \<open>defaultdict(int)\<close> is a dictionary, which keeps its keys in the
  order of first insertion: an association list with distinct labels.
  \<open>table[label] += n\<close> changes the count in place or appends a new label.
\<close>

type_synonym table = "(string \<times> int) list"

fun incr :: "string \<Rightarrow> int \<Rightarrow> table \<Rightarrow> table" where
  "incr label n [] = [(label, n)]"
| "incr label n ((l, c) # rest) =
     (if l = label then (l, c + n) # rest else (l, c) # incr label n rest)"

text \<open>
  \<open>sorted(table.items(), key=lambda x: x[1], reverse=True)\<close>.  Python's sort is
  stable, also with \<open>reverse=True\<close>: items with equal counts keep the order of the
  input.  That is the insertion sort on the negated count.  \<open>Counter.most_common(n)\<close>
  is documented as this sort followed by \<open>[:n]\<close>.
\<close>

definition sorted_desc :: "table \<Rightarrow> table" where
  "sorted_desc t = sort_key (\<lambda>p. - snd p) t"

definition most_common :: "nat \<Rightarrow> table \<Rightarrow> table" where
  "most_common n t = take n (sorted_desc t)"

text \<open>\<open>x\<close> comes before \<open>y\<close> in the list \<open>t\<close>.\<close>

fun before :: "'a list \<Rightarrow> 'a \<Rightarrow> 'a \<Rightarrow> bool" where
  "before [] x y = False"
| "before (z # zs) x y = (if z = x then List.member zs y else before zs x y)"

text \<open>The ranking order: higher count first, and for equal counts first seen first.\<close>

definition ranks_before :: "table \<Rightarrow> string \<times> int \<Rightarrow> string \<times> int \<Rightarrow> bool" where
  "ranks_before t x y = (snd y < snd x \<or> (snd x = snd y \<and> before t x y))"

text \<open>
  \<open>categorize_detection_patterns\<close> adds up the indicator counts of all analyses
  (skipping the absent ones) under the lower-cased indicator and prints
  \<open>sorted_indicators[:15]\<close>.
\<close>

definition add_indicators :: "table \<Rightarrow> analysis option \<Rightarrow> table" where
  "add_indicators t a =
     (case a of
        None \<Rightarrow> t
      | Some an \<Rightarrow> foldl (\<lambda>t e. incr (lower (indicator e)) (int (count e)) t) t
                    (detection_indicators an))"

definition top_indicators :: "analysis option list \<Rightarrow> table" where
  "top_indicators all_analyses = take 15 (sorted_desc (foldl add_indicators [] all_analyses))"

section \<open>Report emitter: \<open>print_results\<close>\<close>

text \<open>
  The percentages of \<open>print_results\<close> in \<open>wikipedia_policy_citation_analyzer.py\<close>, in
  the order the function computes them.  Python's \<open>/\<close> on integers raises
  \<open>ZeroDivisionError\<close> when the divisor is zero and gives a float otherwise; the
  quotients are rational numbers here, their rounding is not modelled.  The function
  is called by \<open>main\<close> outside any \<open>try\<close>.
  \<^verbatim>\<open>
    total_policy_citations = sum(all_policies.values())
    total_ai_citations = sum(ai_policies.values())
    if total_edits > 0:
        print(... edits_with_policies/total_edits*100 ...)
    else:
        ...
        return
    if total_policy_citations > 0:
        ai_percentage = (total_ai_citations / total_policy_citations) * 100
    for i, (policy, count) in enumerate(all_policies.most_common(20), 1):
        is_ai = policy in ai_policies
        percentage = (count / total_policy_citations) * 100
    if ai_policies:
        for policy, count in ai_policies.most_common():
            percentage = (count / total_policy_citations) * 100
            ai_pct = (count / total_ai_citations) * 100
    ...
    print(f"Average citations per policy: {total_policy_citations/len(all_policies):.2f}")
  \<close>
\<close>

datatype py_error = ZeroDivisionError

definition py_div :: "int \<Rightarrow> int \<Rightarrow> py_error + rat" where
  "py_div a b = (if b = 0 then Inl ZeroDivisionError else Inr (of_int a / of_int b))"

definition percent :: "int \<Rightarrow> int \<Rightarrow> py_error + rat" where
  "percent a b = (case py_div a b of Inl e \<Rightarrow> Inl e | Inr q \<Rightarrow> Inr (q * 100))"

record results =
  all_policies :: table
  ai_policies :: table
  total_edits_checked :: int
  edits_with_policies :: int
  batches_processed :: int

record printed =
  edits_percentage :: "rat option"
  ai_percentage :: "rat option"
  top_policies :: "(string \<times> int \<times> rat \<times> bool) list"
  ai_breakdown :: "(string \<times> int \<times> rat \<times> rat) list"
  average_citations :: "rat option"

text \<open>The loop over \<open>all_policies.most_common(20)\<close>; the first failing division ends it.\<close>

fun top_rows :: "int \<Rightarrow> table \<Rightarrow> table \<Rightarrow> py_error + (string \<times> int \<times> rat \<times> bool) list" where
  "top_rows total_citations ai [] = Inr []"
| "top_rows total_citations ai ((policy, c) # rest) =
     (case percent c total_citations of
        Inl e \<Rightarrow> Inl e
      | Inr pct \<Rightarrow>
          (case top_rows total_citations ai rest of
             Inl e \<Rightarrow> Inl e
           | Inr rows \<Rightarrow> Inr ((policy, c, pct, List.member (map fst ai) policy) # rows)))"

text \<open>The loop over \<open>ai_policies.most_common()\<close>.\<close>

fun ai_rows :: "int \<Rightarrow> int \<Rightarrow> table \<Rightarrow> py_error + (string \<times> int \<times> rat \<times> rat) list" where
  "ai_rows total_citations total_ai [] = Inr []"
| "ai_rows total_citations total_ai ((policy, c) # rest) =
     (case percent c total_citations of
        Inl e \<Rightarrow> Inl e
      | Inr pct \<Rightarrow>
          (case percent c total_ai of
             Inl e \<Rightarrow> Inl e
           | Inr ai_pct \<Rightarrow>
               (case ai_rows total_citations total_ai rest of
                  Inl e \<Rightarrow> Inl e
                | Inr rows \<Rightarrow> Inr ((policy, c, pct, ai_pct) # rows))))"

definition print_results :: "results \<Rightarrow> py_error + printed" where
  "print_results r =
     (let total_edits = total_edits_checked r;
          total_policy_citations = sum_list (map snd (all_policies r));
          total_ai_citations = sum_list (map snd (ai_policies r));
          nothing = \<lparr>edits_percentage = None, ai_percentage = None, top_policies = [],
                     ai_breakdown = [], average_citations = None\<rparr>
      in if \<not> 0 < total_edits then Inr nothing
         else
           (case percent (edits_with_policies r) total_edits of
              Inl e \<Rightarrow> Inl e
            | Inr edits_pct \<Rightarrow>
           (case (if 0 < total_policy_citations
                  then map_sum id Some (percent total_ai_citations total_policy_citations)
                  else Inr None) of
              Inl e \<Rightarrow> Inl e
            | Inr ai_pct \<Rightarrow>
           (case top_rows total_policy_citations (ai_policies r)
                   (most_common 20 (all_policies r)) of
              Inl e \<Rightarrow> Inl e
            | Inr top20 \<Rightarrow>
           (case (if ai_policies r \<noteq> []
                  then ai_rows total_policy_citations total_ai_citations
                         (sorted_desc (ai_policies r))
                  else Inr []) of
              Inl e \<Rightarrow> Inl e
            | Inr breakdown \<Rightarrow>
           (case py_div total_policy_citations (int (length (all_policies r))) of
              Inl e \<Rightarrow> Inl e
            | Inr avg \<Rightarrow>
                Inr \<lparr>edits_percentage = Some edits_pct, ai_percentage = ai_pct,
                     top_policies = top20, ai_breakdown = breakdown,
                     average_citations = Some avg\<rparr>))))))"

text \<open>
  \<open>EclipseFoundationCollector.generate_statistics\<close> divides by \<open>total =
  len(self.projects)\<close> only, after \<open>if not self.projects: return {}\<close>.  A project is
  reduced to the three facts the rates count; \<open>round(..., 1)\<close> is not modelled.
\<close>

record project =
  on_github :: bool
  github_issues :: bool
  mailing_lists :: bool

record rates =
  github_adoption_rate :: rat
  github_issues_adoption :: rat
  mailing_list_usage :: rat

definition count_where :: "('a \<Rightarrow> bool) \<Rightarrow> 'a list \<Rightarrow> int" where
  "count_where P xs = int (length (filter P xs))"

definition generate_statistics :: "project list \<Rightarrow> py_error + rates option" where
  "generate_statistics projects =
     (if projects = [] then Inr None
      else (let n = int (length projects)
            in case percent (count_where on_github projects) n of
                 Inl e \<Rightarrow> Inl e
               | Inr g \<Rightarrow>
              (case percent (count_where github_issues projects) n of
                 Inl e \<Rightarrow> Inl e
               | Inr i \<Rightarrow>
              (case percent (count_where mailing_lists projects) n of
                 Inl e \<Rightarrow> Inl e
               | Inr m \<Rightarrow>
                   Inr (Some \<lparr>github_adoption_rate = g, github_issues_adoption = i,
                              mailing_list_usage = m\<rparr>)))))"

section \<open>Fetcher and paginator\<close>

text \<open>
  One call of \<open>requests.get\<close> either raises (no connection, timeout) or returns a
  response with a status code and a body; \<open>response.json()\<close> raises when the body is
  not JSON, and \<open>response.raise_for_status()\<close>, where the code calls it, raises for a
  status from 400 to 599.  The decoded body has the shape of the MediaWiki answer the
  caller reads.  \<open>get_json checked\<close> is the sequence \<open>get\<close>, \<open>raise_for_status\<close> (when
  \<open>checked\<close>), \<open>json\<close>.
\<close>

datatype exn = ConnectionError string | HTTPError nat | JSONDecodeError | KeyError string

datatype 'a http = NetworkFailure string | Response nat "'a option"

definition get_json :: "bool \<Rightarrow> 'a http \<Rightarrow> exn + 'a" where
  "get_json checked r =
     (case r of
        NetworkFailure m \<Rightarrow> Inl (ConnectionError m)
      | Response status body \<Rightarrow>
          if checked \<and> 400 \<le> status \<and> status < 600 then Inl (HTTPError status)
          else (case body of None \<Rightarrow> Inl JSONDecodeError | Some d \<Rightarrow> Inr d))"

subsection \<open>\<open>search_edit_summaries_2025\<close>\<close>

text \<open>
  \<^verbatim>\<open>
    batch_num = 0
    while batch_num < max_batches:
        batch_num += 1
        print(f"Batch {batch_num}/{max_batches}...", end=" ", flush=True)
        try:
            response = requests.get(API_URL, params=params, headers=HEADERS)
            response.raise_for_status()
            data = response.json()
            changes = data.get('query', {}).get('recentchanges', [])
            if not changes:
                print("No more changes found.")
                break
            for change in changes:
                total_edits_checked += 1
                comment = change.get('comment', '')
                if not comment:
                    continue
                policies_in_comment = re.findall(POLICY_PATTERN, comment, re.IGNORECASE)
                if policies_in_comment:
                    edits_with_policies += 1
                    for policy in policies_in_comment:
                        policy_normalized = policy.upper()
                        all_policies[policy_normalized] += 1
                        for ai_pattern in AI_POLICY_PATTERNS:
                            if re.search(ai_pattern, policy, re.IGNORECASE):
                                ai_policies[policy_normalized] += 1
                                break
            print(f"Found {len(changes)} edits. ...")
            if 'continue' not in data:
                print("No more data to fetch.")
                break
            params['rccontinue'] = data['continue']['rccontinue']
            time.sleep(0.5)
        except Exception as e:
            print(f"\nError in batch {batch_num}: {e}")
            break
    return {'all_policies': all_policies, ..., 'batches_processed': batch_num}
  \<close>
  The two regular-expression tests are parameters of the model: \<open>findall_policy\<close>
  is \<open>re.findall(POLICY_PATTERN, comment, re.IGNORECASE)\<close> and \<open>ai_related\<close> says
  whether one of \<open>AI_POLICY_PATTERNS\<close> is found in a policy.  The remote API is a
  function of the batch number and of the \<open>rccontinue\<close> parameter sent.  The state
  holds the counters, the continuation parameter, the lines printed and the requests
  made so far.  \<open>upper\<close> is \<open>str.upper\<close> on the letters whose upper case is one
  character of the range; the micro sign, the sharp s and the y with diaeresis,
  which Python maps outside the range or to two characters, are left as they are.
\<close>

record change =
  rc_comment :: "string option"

datatype continuation = NoContinue | ContinueWithout | ContinueAt string

record rc_data =
  recentchanges :: "change list"
  rc_continue :: continuation

datatype batch_outcome =
    NoMoreChanges | FoundEdits nat | FoundLast nat | ErrorAfter nat exn | ErrorInBatch exn

record search_state =
  counters :: results
  rccontinue :: "string option"
  printed_lines :: "(int \<times> batch_outcome) list"
  requests :: "string option list"

definition upper_char :: "char \<Rightarrow> char" where
  "upper_char c = (let n = (of_char c :: nat)
                   in if (97 \<le> n \<and> n \<le> 122) \<or> (224 \<le> n \<and> n \<le> 246) \<or> (248 \<le> n \<and> n \<le> 254)
                      then char_of (n - 32) else c)"

definition upper :: "string \<Rightarrow> string" where
  "upper s = map upper_char s"

definition count_policy :: "(string \<Rightarrow> bool) \<Rightarrow> results \<Rightarrow> string \<Rightarrow> results" where
  "count_policy ai_related r policy =
     (let policy_normalized = upper policy;
          r1 = r\<lparr>all_policies := incr policy_normalized 1 (all_policies r)\<rparr>
      in if ai_related policy
         then r1\<lparr>ai_policies := incr policy_normalized 1 (ai_policies r1)\<rparr> else r1)"

definition process_change ::
  "(string \<Rightarrow> string list) \<Rightarrow> (string \<Rightarrow> bool) \<Rightarrow> results \<Rightarrow> change \<Rightarrow> results" where
  "process_change findall_policy ai_related r ch =
     (let r1 = r\<lparr>total_edits_checked := total_edits_checked r + 1\<rparr>
      in case rc_comment ch of
           None \<Rightarrow> r1
         | Some c \<Rightarrow>
             if c = [] then r1
             else (let policies_in_comment = findall_policy c
                   in if policies_in_comment = [] then r1
                      else foldl (count_policy ai_related)
                             (r1\<lparr>edits_with_policies := edits_with_policies r1 + 1\<rparr>)
                             policies_in_comment))"

definition say :: "int \<Rightarrow> batch_outcome \<Rightarrow> search_state \<Rightarrow> search_state" where
  "say batch_num outcome st = st\<lparr>printed_lines := printed_lines st @ [(batch_num, outcome)]\<rparr>"

function search_loop ::
  "(int \<Rightarrow> string option \<Rightarrow> rc_data http) \<Rightarrow> (string \<Rightarrow> string list) \<Rightarrow> (string \<Rightarrow> bool)
     \<Rightarrow> int \<Rightarrow> int \<Rightarrow> search_state \<Rightarrow> int \<times> search_state" where
  "search_loop api findall_policy ai_related max_batches batch_num st =
     (if batch_num < max_batches
      then (let st1 = st\<lparr>requests := requests st @ [rccontinue st]\<rparr>
            in case get_json True (api (batch_num + 1) (rccontinue st)) of
                 Inl e \<Rightarrow> (batch_num + 1, say (batch_num + 1) (ErrorInBatch e) st1)
               | Inr data \<Rightarrow>
                   if recentchanges data = []
                   then (batch_num + 1, say (batch_num + 1) NoMoreChanges st1)
                   else (let st2 = st1\<lparr>counters :=
                                     foldl (process_change findall_policy ai_related)
                                       (counters st1) (recentchanges data)\<rparr>;
                             n = length (recentchanges data)
                         in case rc_continue data of
                              NoContinue \<Rightarrow> (batch_num + 1, say (batch_num + 1) (FoundLast n) st2)
                            | ContinueWithout \<Rightarrow>
                                (batch_num + 1,
                                 say (batch_num + 1) (ErrorAfter n (KeyError ''rccontinue'')) st2)
                            | ContinueAt tok \<Rightarrow>
                                search_loop api findall_policy ai_related max_batches
                                  (batch_num + 1)
                                  (say (batch_num + 1) (FoundEdits n) st2
                                     \<lparr>rccontinue := Some tok\<rparr>)))
      else (batch_num, st))"
  by pat_completeness auto
termination
  by (relation "measure (\<lambda>(api, f, a, max_batches, batch_num, st). nat (max_batches - batch_num))")
     auto

declare search_loop.simps [simp del]

definition search_edit_summaries_2025 ::
  "(int \<Rightarrow> string option \<Rightarrow> rc_data http) \<Rightarrow> (string \<Rightarrow> string list) \<Rightarrow> (string \<Rightarrow> bool)
     \<Rightarrow> int \<Rightarrow> search_state" where
  "search_edit_summaries_2025 api findall_policy ai_related max_batches =
     (let start = \<lparr>counters = \<lparr>all_policies = [], ai_policies = [], total_edits_checked = 0,
                                edits_with_policies = 0, batches_processed = 0\<rparr>,
                    rccontinue = None, printed_lines = [], requests = []\<rparr>;
          (batch_num, st) = search_loop api findall_policy ai_related max_batches 0 start
      in st\<lparr>counters := (counters st)\<lparr>batches_processed := batch_num\<rparr>\<rparr>)"

subsection \<open>The page loop of \<open>get_popular_wikiprojects\<close>\<close>

text \<open>
  \<^verbatim>\<open>
    try:
        continue_token = None
        batch_count = 0
        while True:
            batch_count += 1
            params = {...}
            if continue_token:
                params['apcontinue'] = continue_token
            response = self.session.get(self.api_base, params=params, timeout=30)
            response.raise_for_status()
            data = response.json()
            if 'query' in data and 'allpages' in data['query']:
                for page in data['query']['allpages']:
                    title = page['title']
                    if title.count('/') == 0:
                        wikiprojects.append({'title': title, 'pageid': page['pageid']})
            if 'continue' in data and 'apcontinue' in data['continue']:
                continue_token = data['continue']['apcontinue']
                time.sleep(self.request_delay)
            else:
                break
        ...
    except Exception as e:
        self.log(f"Error fetching WikiProjects: {e}")
        return []
  \<close>
  The loop has no bound of its own, so it is a partial function: \<open>None\<close> is the run
  that never leaves the loop, \<open>Some (Inl e)\<close> the exception that sends the method to
  its handler, \<open>Some (Inr pages)\<close> the list the rest of the method goes on with.
  A page of the answer may lack its title or its identifier; reading the missing
  key raises \<open>KeyError\<close>.
\<close>

record page =
  page_title :: "string option"
  pageid :: "nat option"

record ap_data =
  allpages :: "page list option"
  apcontinue :: "string option"

record wikiproject =
  wp_title :: string
  wp_pageid :: nat

fun collect_pages :: "page list \<Rightarrow> exn + wikiproject list" where
  "collect_pages [] = Inr []"
| "collect_pages (p # ps) =
     (case page_title p of
        None \<Rightarrow> Inl (KeyError ''title'')
      | Some t \<Rightarrow>
          if List.member t (CHR ''/'') then collect_pages ps
          else (case pageid p of
                  None \<Rightarrow> Inl (KeyError ''pageid'')
                | Some i \<Rightarrow>
                    (case collect_pages ps of
                       Inl e \<Rightarrow> Inl e
                     | Inr ws \<Rightarrow> Inr (\<lparr>wp_title = t, wp_pageid = i\<rparr> # ws))))"

definition main_pages :: "ap_data \<Rightarrow> exn + wikiproject list" where
  "main_pages data =
     (case allpages data of None \<Rightarrow> Inr [] | Some pages \<Rightarrow> collect_pages pages)"

definition sent_token :: "string option \<Rightarrow> string option" where
  "sent_token continue_token =
     (case continue_token of None \<Rightarrow> None | Some t \<Rightarrow> if t = [] then None else Some t)"

partial_function (option) wikiprojects_loop ::
  "(nat \<Rightarrow> string option \<Rightarrow> ap_data http) \<Rightarrow> nat \<Rightarrow> string option \<Rightarrow> wikiproject list
     \<Rightarrow> (exn + wikiproject list) option" where
  "wikiprojects_loop api batch_count continue_token wikiprojects =
     (case get_json True (api (batch_count + 1) (sent_token continue_token)) of
        Inl e \<Rightarrow> Some (Inl e)
      | Inr data \<Rightarrow>
          (case main_pages data of
             Inl e \<Rightarrow> Some (Inl e)
           | Inr ws \<Rightarrow>
               (case apcontinue data of
                  Some tok \<Rightarrow>
                    wikiprojects_loop api (batch_count + 1) (Some tok) (wikiprojects @ ws)
                | None \<Rightarrow> Some (Inr (wikiprojects @ ws)))))"

subsection \<open>\<open>get_afd_discussions_ai\<close>\<close>

text \<open>
  \<^verbatim>\<open>
    all_discussions = []
    keywords = ['AI-generated', 'ChatGPT', 'GPT', 'language model', 'suspected AI',
                'looks like AI', 'AI writing']
    seen_titles = set()
    for keyword in keywords:
        print(f"Searching for: '{keyword}'...", end=" ", flush=True)
        params = {...}
        try:
            response = requests.get(API_URL, params=params, headers=HEADERS)
            data = response.json()
            results = data.get('query', {}).get('search', [])
            new_results = 0
            for result in results:
                if result['title'] not in seen_titles:
                    seen_titles.add(result['title'])
                    all_discussions.append({'title': result['title'],
                        'snippet': result['snippet'], 'keyword': keyword,
                        'timestamp': result.get('timestamp', ''),
                        'wordcount': result.get('wordcount', 0)})
                    new_results += 1
            print(f"Found {len(results)} results ({new_results} new)")
            time.sleep(0.5)
        except Exception as e:
            print(f"Error: {e}")
    return all_discussions
  \<close>
  There is no \<open>raise_for_status\<close> here: the status of the response is not looked at.
  Each of the four fields of a search result may be missing.  The title and the
  snippet are read by subscript: a missing one raises \<open>KeyError\<close> inside the \<open>try\<close>,
  which ends the loop over this keyword's results and keeps what was done before.
  A result without snippet has its title added to \<open>seen_titles\<close> already when the
  snippet is read.  The remote API is a function of the keyword searched.  Each
  printed line is the keyword with what followed it.
\<close>

record search_result =
  sr_title :: "string option"
  sr_snippet :: "string option"
  sr_timestamp :: "string option"
  sr_wordcount :: "int option"

record discussion =
  d_title :: string
  d_snippet :: string
  d_keyword :: string
  d_timestamp :: string
  d_wordcount :: int

datatype search_outcome = FoundResults nat nat | SearchError exn

record afd_state =
  seen_titles :: "string set"
  all_discussions :: "discussion list"
  afd_lines :: "(string \<times> search_outcome) list"

definition afd_keywords :: "string list" where
  "afd_keywords = [''AI-generated'', ''ChatGPT'', ''GPT'', ''language model'',
                   ''suspected AI'', ''looks like AI'', ''AI writing'']"

definition discussion_of :: "string \<Rightarrow> string \<Rightarrow> string \<Rightarrow> search_result \<Rightarrow> discussion" where
  "discussion_of keyword t snip r =
     \<lparr>d_title = t, d_snippet = snip, d_keyword = keyword,
      d_timestamp = (case sr_timestamp r of None \<Rightarrow> [] | Some ts \<Rightarrow> ts),
      d_wordcount = (case sr_wordcount r of None \<Rightarrow> 0 | Some w \<Rightarrow> w)\<rparr>"

text \<open>
  The loop over the results of one keyword.  It returns the set of seen titles, the
  discussions and the number of new results as they are when the loop ends, and the
  exception that ended it, if one did.
\<close>

fun add_results ::
  "string \<Rightarrow> search_result list \<Rightarrow> string set \<times> discussion list \<times> nat
     \<Rightarrow> (string set \<times> discussion list \<times> nat) \<times> exn option" where
  "add_results keyword [] acc = (acc, None)"
| "add_results keyword (r # rs) (seen, ds, new_results) =
     (case sr_title r of
        None \<Rightarrow> ((seen, ds, new_results), Some (KeyError ''title''))
      | Some t \<Rightarrow>
          if t \<notin> seen
          then (case sr_snippet r of
                  None \<Rightarrow> ((insert t seen, ds, new_results), Some (KeyError ''snippet''))
                | Some snip \<Rightarrow>
                    add_results keyword rs
                      (insert t seen, ds @ [discussion_of keyword t snip r], new_results + 1))
          else add_results keyword rs (seen, ds, new_results))"

definition search_keyword ::
  "(string \<Rightarrow> search_result list http) \<Rightarrow> afd_state \<Rightarrow> string \<Rightarrow> afd_state" where
  "search_keyword api st keyword =
     (case get_json False (api keyword) of
        Inl e \<Rightarrow> st\<lparr>afd_lines := afd_lines st @ [(keyword, SearchError e)]\<rparr>
      | Inr results \<Rightarrow>
          (case add_results keyword results (seen_titles st, all_discussions st, 0) of
             ((seen, ds, new_results), raised) \<Rightarrow>
               \<lparr>seen_titles = seen, all_discussions = ds,
                afd_lines = afd_lines st
                  @ [(keyword, case raised of
                                 None \<Rightarrow> FoundResults (length results) new_results
                               | Some e \<Rightarrow> SearchError e)]\<rparr>))"

definition afd_run :: "string list \<Rightarrow> (string \<Rightarrow> search_result list http) \<Rightarrow> afd_state" where
  "afd_run keywords api =
     foldl (search_keyword api) \<lparr>seen_titles = {}, all_discussions = [], afd_lines = []\<rparr> keywords"

definition get_afd_discussions_ai :: "(string \<Rightarrow> search_result list http) \<Rightarrow> discussion list" where
  "get_afd_discussions_ai api = all_discussions (afd_run afd_keywords api)"

section \<open>Properties of the section splitter\<close>

lemma split_nl_nonempty: "split_nl s \<noteq> []"
  by (induction s) (auto split: list.splits)

lemma concat_split_nl: "concat (map (\<lambda>l. l @ [nl]) (split_nl s)) = s @ [nl]"
proof (induction s)
  case Nil
  show ?case by simp
next
  case (Cons c cs)
  show ?case
  proof (cases "c = nl")
    case True
    with Cons show ?thesis by simp
  next
    case False
    obtain l ls where "split_nl cs = l # ls"
      using split_nl_nonempty [of cs] by (cases "split_nl cs") auto
    with Cons False show ?thesis by simp
  qed
qed

lemma parse_lines_no_header:
  "list_all (\<lambda>l. header_match l = None) ls \<Longrightarrow>
   parse_lines ls secs cur
     = save (cur\<lparr>content := content cur @ concat (map (\<lambda>l. l @ [nl]) ls)\<rparr>) secs"
  by (induction ls arbitrary: cur) simp_all

lemma parse_lines_only_headers:
  "list_all (\<lambda>l. header_match l \<noteq> None) ls \<Longrightarrow> content cur = [] \<Longrightarrow>
   parse_lines ls secs cur = secs"
  by (induction ls arbitrary: cur secs) (auto simp: save_def)

lemma parse_lines_some_section:
  "secs \<noteq> [] \<or> content cur \<noteq> [] \<or> \<not> list_all (\<lambda>l. header_match l \<noteq> None) ls \<Longrightarrow>
   parse_lines ls secs cur \<noteq> []"
proof (induction ls arbitrary: secs cur)
  case Nil
  then show ?case by (auto simp: save_def)
next
  case (Cons l ls)
  show ?case
  proof (cases "header_match l")
    case None
    then show ?thesis by (simp add: Cons.IH)
  next
    case (Some t)
    from Cons.prems Some
    have "save cur secs \<noteq> [] \<or> \<not> list_all (\<lambda>l. header_match l \<noteq> None) ls"
      by (auto simp: save_def)
    then have "save cur secs \<noteq> [] \<or> content \<lparr>title = t, content = []\<rparr> \<noteq> []
                 \<or> \<not> list_all (\<lambda>l. header_match l \<noteq> None) ls" by blast
    then have "parse_lines ls (save cur secs) \<lparr>title = t, content = []\<rparr> \<noteq> []"
      by (rule Cons.IH)
    with Some show ?thesis by simp
  qed
qed

lemma is_space_nl: "is_space nl"
  by (simp add: is_space_def nl_def)

lemma strip_blank: "list_all is_space s \<Longrightarrow> strip s = []"
proof -
  assume "list_all is_space s"
  then have d: "dropWhile is_space s = []"
    by (simp only: dropWhile_eq_Nil_conv list_all_iff)
  show ?thesis unfolding strip_def d by simp
qed

lemma parse_lines_blank:
  "list_all (\<lambda>l. header_match l \<noteq> None \<or> list_all is_space l) ls \<Longrightarrow>
   list_all (\<lambda>s. list_all is_space (content s)) secs \<Longrightarrow> list_all is_space (content cur) \<Longrightarrow>
   list_all (\<lambda>s. list_all is_space (content s)) (parse_lines ls secs cur)"
proof (induction ls arbitrary: secs cur)
  case Nil
  then show ?case by (auto simp: save_def)
next
  case (Cons l ls)
  show ?case
  proof (cases "header_match l")
    case None
    with Cons.prems have "list_all is_space (content cur @ l @ [nl])"
      by (simp add: is_space_nl)
    with None Cons.prems show ?thesis by (simp add: Cons.IH)
  next
    case (Some t)
    have "list_all (\<lambda>s. list_all is_space (content s)) (save cur secs)"
      using Cons.prems by (auto simp: save_def)
    with Some Cons.prems show ?thesis by (simp add: Cons.IH)
  qed
qed

text \<open>
  Claim C4, as the code has it.  When no line of the document is a heading line,
  \<open>parse_talk_sections\<close> returns exactly one section, titled "Introduction", whose
  body is the document followed by one newline (every line is appended with a
  newline, the last one too).  It returns no section exactly when every line of the
  document, that is every piece between two newline characters, is a heading line;
  the empty piece after a final newline and a blank line between two headings are
  lines that are no heading.  When every line is a heading line or blank, every
  section returned has a blank body.
\<close>

theorem parse_talk_sections_no_heading_or_only_headings:
  "(list_all (\<lambda>l. header_match l = None) (split_nl doc) \<longrightarrow>
      parse_talk_sections doc = [\<lparr>title = ''Introduction'', content = doc @ [nl]\<rparr>])
   \<and> (parse_talk_sections doc = [] \<longleftrightarrow> list_all (\<lambda>l. header_match l \<noteq> None) (split_nl doc))
   \<and> (list_all (\<lambda>l. header_match l \<noteq> None \<or> list_all is_space l) (split_nl doc) \<longrightarrow>
        (\<forall>s \<in> set (parse_talk_sections doc). strip (content s) = []))"
proof -
  let ?intro = "\<lparr>title = ''Introduction'', content = []\<rparr>"
  have p1: "list_all (\<lambda>l. header_match l = None) (split_nl doc) \<longrightarrow>
      parse_talk_sections doc = [\<lparr>title = ''Introduction'', content = doc @ [nl]\<rparr>]"
    by (simp add: parse_talk_sections_def parse_lines_no_header concat_split_nl save_def)
  have p2: "parse_talk_sections doc = [] \<longleftrightarrow> list_all (\<lambda>l. header_match l \<noteq> None) (split_nl doc)"
    using parse_lines_some_section [of "[]" ?intro "split_nl doc"]
      parse_lines_only_headers [of "split_nl doc" ?intro "[]"]
    by (auto simp: parse_talk_sections_def)
  have p3: "list_all (\<lambda>l. header_match l \<noteq> None \<or> list_all is_space l) (split_nl doc) \<longrightarrow>
        (\<forall>s \<in> set (parse_talk_sections doc). strip (content s) = [])"
    using parse_lines_blank [of "split_nl doc" "[]" ?intro]
    by (auto simp: parse_talk_sections_def list_all_iff strip_blank)
  from p1 p2 p3 show ?thesis by (intro conjI)
qed

theorem parse_talk_sections_no_heading_or_only_headings_witness:
  "list_all (\<lambda>l. header_match l = None) (split_nl ''abc'')
   \<and> parse_talk_sections ''abc'' = [\<lparr>title = ''Introduction'', content = ''abc'' @ [nl]\<rparr>]
   \<and> list_all (\<lambda>l. header_match l \<noteq> None) (split_nl (''== A =='' @ [nl] @ ''=== B ===''))
   \<and> parse_talk_sections (''== A =='' @ [nl] @ ''=== B ==='') = []
   \<and> list_all (\<lambda>l. header_match l \<noteq> None \<or> list_all is_space l)
        (split_nl (''== A =='' @ [nl] @ ''== B =='' @ [nl]))
   \<and> parse_talk_sections (''== A =='' @ [nl] @ ''== B =='' @ [nl])
       = [\<lparr>title = ''B'', content = [nl]\<rparr>]
   \<and> strip (content \<lparr>title = ''B'', content = [nl]\<rparr>) = []"
proof -
  have h1: "list_all (\<lambda>l. header_match l = None) (split_nl ''abc'')"
    by (simp add: header_match_def)
  have h2: "list_all (\<lambda>l. header_match l \<noteq> None) (split_nl (''== A =='' @ [nl] @ ''=== B ===''))"
    by (simp add: header_match_def nl_def)
  have h3: "list_all (\<lambda>l. header_match l \<noteq> None \<or> list_all is_space l)
        (split_nl (''== A =='' @ [nl] @ ''== B =='' @ [nl]))"
    by (simp add: header_match_def nl_def)
  have e3: "parse_talk_sections (''== A =='' @ [nl] @ ''== B =='' @ [nl])
       = [\<lparr>title = ''B'', content = [nl]\<rparr>]"
    by (simp add: parse_talk_sections_def header_match_def save_def nl_def is_space_def
        strip_def)
  note t1 = parse_talk_sections_no_heading_or_only_headings [of "''abc''"]
  note t2 = parse_talk_sections_no_heading_or_only_headings [of "''== A =='' @ [nl] @ ''=== B ==='' "]
  note t3 = parse_talk_sections_no_heading_or_only_headings [of "''== A =='' @ [nl] @ ''== B =='' @ [nl]"]
  from t1 h1 have w1: "parse_talk_sections ''abc'' = [\<lparr>title = ''Introduction'', content = ''abc'' @ [nl]\<rparr>]"
    by blast
  from t2 h2 have w2: "parse_talk_sections (''== A =='' @ [nl] @ ''=== B ==='') = []"
    by blast
  from t3 h3 have "\<forall>s \<in> set (parse_talk_sections (''== A =='' @ [nl] @ ''== B =='' @ [nl])).
      strip (content s) = []" by blast
  then have w3: "strip (content \<lparr>title = ''B'', content = [nl]\<rparr>) = []"
    unfolding e3 by simp
  from h1 w1 h2 w2 h3 e3 w3 show ?thesis by (intro conjI)
qed

text \<open>
  Claim C4 as stated fails in both halves: for the document \<open>abc\<close>, which has no
  heading line, the body of the section returned is not the document; and the
  document of two heading lines that ends with a newline, which has no text
  between or after its headings, yields one section.
\<close>

theorem parse_talk_sections_body_is_not_document:
  "parse_talk_sections ''abc'' \<noteq> [\<lparr>title = ''Introduction'', content = ''abc''\<rparr>]
   \<and> parse_talk_sections (''== A =='' @ [nl] @ ''== B =='' @ [nl])
       = [\<lparr>title = ''B'', content = [nl]\<rparr>]"
  by (simp add: parse_talk_sections_def header_match_def save_def nl_def is_space_def strip_def)

definition whole_lines :: "string \<Rightarrow> bool" where
  "whole_lines s = (s \<noteq> [] \<and> last s = nl)"

lemma parse_lines_whole:
  "list_all (\<lambda>s. whole_lines (content s)) secs \<Longrightarrow>
   content cur = [] \<or> whole_lines (content cur) \<Longrightarrow>
   list_all (\<lambda>s. whole_lines (content s)) (parse_lines ls secs cur)"
proof (induction ls arbitrary: secs cur)
  case Nil
  then show ?case by (auto simp: save_def)
next
  case (Cons l ls)
  show ?case
  proof (cases "header_match l")
    case None
    have "whole_lines (content cur @ l @ [nl])" by (simp add: whole_lines_def)
    with None Cons.prems(1) show ?thesis by (simp add: Cons.IH)
  next
    case (Some t)
    have "list_all (\<lambda>s. whole_lines (content s)) (save cur secs)"
      using Cons.prems by (auto simp: save_def)
    with Some show ?thesis by (simp add: Cons.IH)
  qed
qed

text \<open>
  Claim C5, as the code has it.  Every section \<open>parse_talk_sections\<close> emits has a
  non-empty body, made of whole lines (it ends with a newline); a section with no
  line between its heading and the next heading, or the end, is not emitted.  The
  guard is on the body as it is, not on the trimmed body.
\<close>

theorem parse_talk_sections_bodies_nonempty:
  "\<forall>s \<in> set (parse_talk_sections doc). content s \<noteq> [] \<and> last (content s) = nl"
  using parse_lines_whole [of "[]" "\<lparr>title = ''Introduction'', content = []\<rparr>" "split_nl doc"]
  by (simp add: parse_talk_sections_def list_all_iff whole_lines_def)

theorem parse_talk_sections_bodies_nonempty_witness:
  "parse_talk_sections (''== A =='' @ [nl] @ ''x'') = [\<lparr>title = ''A'', content = ''x'' @ [nl]\<rparr>]
   \<and> content \<lparr>title = ''A'', content = ''x'' @ [nl]\<rparr> \<noteq> []
   \<and> last (content \<lparr>title = ''A'', content = ''x'' @ [nl]\<rparr>) = nl"
proof -
  have e: "parse_talk_sections (''== A =='' @ [nl] @ ''x'')
           = [\<lparr>title = ''A'', content = ''x'' @ [nl]\<rparr>]"
    by (simp add: parse_talk_sections_def header_match_def save_def nl_def is_space_def
        strip_def)
  with parse_talk_sections_bodies_nonempty [of "''== A =='' @ [nl] @ ''x''"]
  show ?thesis by simp
qed

text \<open>
  Claim C5 as stated fails: a blank line between two headings makes a section
  whose body is one newline, which trims to the empty string, and it is emitted.
\<close>

theorem parse_talk_sections_emits_blank_body:
  "parse_talk_sections (''== A =='' @ [nl, nl] @ ''== B =='' @ [nl] @ ''x'')
     = [\<lparr>title = ''A'', content = [nl]\<rparr>, \<lparr>title = ''B'', content = ''x'' @ [nl]\<rparr>]
   \<and> strip (content \<lparr>title = ''A'', content = [nl]\<rparr>) = []"
  by (simp add: parse_talk_sections_def header_match_def save_def nl_def is_space_def
      strip_def)

section \<open>Properties of the report emitter\<close>

text \<open>
  Claim C1 fails on \<open>print_results\<close>.  The result set below is what
  \<open>search_edit_summaries_2025\<close> returns when it has checked one edit and found no
  policy citation.  The guards on \<open>total_edits\<close> and \<open>total_policy_citations\<close> are
  passed, both loops are empty, and the last statistic divides the total by
  \<open>len(all_policies)\<close>, which is zero: the call raises \<open>ZeroDivisionError\<close>.
\<close>

theorem print_results_raises_without_citations:
  "print_results \<lparr>all_policies = [], ai_policies = [], total_edits_checked = 1,
                   edits_with_policies = 0, batches_processed = 1\<rparr>
     = Inl ZeroDivisionError"
  by (simp add: print_results_def percent_def py_div_def most_common_def sorted_desc_def)

text \<open>The Eclipse collector's statistics, for comparison, never divide by zero.\<close>

lemma generate_statistics_never_raises: "generate_statistics projects \<noteq> Inl e"
  by (simp add: generate_statistics_def percent_def py_div_def Let_def)

section \<open>Properties of the pattern matcher\<close>

text \<open>
  Claim C2 fails on \<open>analyze_afd_text\<close>.  In the text \<open>GPT GPT\<close> the indicator
  \<open>GPT\<close> occurs twice, and a scan for it alone finds two non-overlapping
  occurrences.  The reported count is the number of context windows, and the first
  window swallows the second occurrence: the count is 1.
\<close>

theorem analyze_afd_text_count_merges_near_occurrences:
  "analyze_afd_text (Some ''GPT GPT'') ''Example''
     = Some \<lparr>article = ''Example'', text_length = 7,
             detection_indicators =
               [\<lparr>indicator = ''GPT'', count = 1, examples = [''GPT GPT'']\<rparr>]\<rparr>
   \<and> count_occurrences ''GPT'' ''GPT GPT'' = 2"
  by code_simp

lemma discussion_parts_no_keywords:
  "discussion_parts sp [] parts is_content cur ds = ds"
  by (induction parts arbitrary: is_content cur ds) simp_all

lemma scan_parts_no_keywords:
  "scan_parts [] parts is_content cur (ms, ss) = (ms, ss)"
  by (induction parts arbitrary: is_content cur)
     (simp_all add: section_mentions_def section_summary_def)

text \<open>
  Claim C8, as the code has it.  For an absent or empty text \<open>analyze_afd_text\<close>
  returns the absent value \<open>None\<close>, without an error (its caller skips absent
  analyses); \<open>extract_ai_discussions\<close> returns the empty list for an absent or empty
  content, and \<open>extract_ai_references\<close> has no mention for an empty text.  With an
  empty pattern set the indicator scan, \<open>extract_ai_discussions\<close> and the mentions
  of \<open>extract_ai_references\<close> are empty for every text.
\<close>

theorem empty_text_or_patterns_give_no_matches:
  "analyze_afd_text None a = None
   \<and> analyze_afd_text (Some []) a = None
   \<and> extract_ai_discussions sp kws None = []
   \<and> extract_ai_discussions sp kws (Some []) = []
   \<and> ai_mentions (extract_ai_references kws []) = []
   \<and> find_detection_indicators [] t = []
   \<and> extract_ai_discussions sp [] c = []
   \<and> ai_mentions (extract_ai_references [] w) = []"
  by (simp add: analyze_afd_text_def extract_ai_discussions_def extract_ai_references_def
      find_detection_indicators_def discussion_parts_no_keywords scan_parts_no_keywords
      split: option.splits)

text \<open>
  Claim C8 as stated fails: for the empty text the scan of \<open>analyze_afd_text\<close> is
  absent, not an empty sequence.
\<close>

theorem analyze_afd_text_empty_text_is_absent:
  "map_option detection_indicators (analyze_afd_text (Some []) ''Example'') = None
   \<and> map_option detection_indicators (analyze_afd_text (Some []) ''Example'') \<noteq> Some []"
  by (simp add: analyze_afd_text_def)

section \<open>Properties of the aggregator\<close>

lemma before_in_set: "before t x y \<Longrightarrow> y \<in> set t"
  by (induction t) (auto split: if_splits)

lemma insort_key_sorted_wrt:
  "sorted_wrt R ys \<Longrightarrow> sorted (map f ys) \<Longrightarrow>
   \<forall>y \<in> set ys. (f a \<le> f y \<longrightarrow> R a y) \<and> (\<not> f a \<le> f y \<longrightarrow> R y a) \<Longrightarrow>
   sorted_wrt R (insort_key f a ys)"
proof (induction ys)
  case Nil
  then show ?case by simp
next
  case (Cons y ys)
  show ?case
  proof (cases "f a \<le> f y")
    case True
    have "\<forall>z \<in> set (y # ys). f a \<le> f z"
      using True Cons.prems(2) by auto
    with Cons.prems(1,3) True show ?thesis by auto
  next
    case False
    have "sorted_wrt R (insort_key f a ys)"
      using Cons by simp
    moreover have "\<forall>z \<in> set (insort_key f a ys). R y z"
      using Cons.prems(1,3) False by (auto simp: set_insort_key)
    ultimately show ?thesis using False by simp
  qed
qed

lemma sorted_desc_ranked:
  "distinct t \<Longrightarrow> sorted_wrt (ranks_before t) (sorted_desc t)"
proof (induction t)
  case Nil
  show ?case by (simp add: sorted_desc_def)
next
  case (Cons a t)
  let ?f = "\<lambda>p :: string \<times> int. - snd p"
  let ?ys = "sort_key ?f t"
  have set_ys: "set ?ys = set t" by simp
  have a_notin: "a \<notin> set t" using Cons.prems by simp
  have same: "\<And>x y. x \<in> set t \<Longrightarrow> y \<in> set t \<Longrightarrow>
                ranks_before (a # t) x y = ranks_before t x y"
    using a_notin by (auto simp: ranks_before_def)
  have "sorted_wrt (ranks_before t) ?ys"
    using Cons by (simp add: sorted_desc_def)
  then have s1: "sorted_wrt (ranks_before (a # t)) ?ys"
    using same by (metis (no_types, lifting) set_ys sorted_wrt_mono_rel)
  have s2: "sorted (map ?f ?ys)" by (rule sorted_sort_key)
  have s3: "\<forall>y \<in> set ?ys. (?f a \<le> ?f y \<longrightarrow> ranks_before (a # t) a y)
                        \<and> (\<not> ?f a \<le> ?f y \<longrightarrow> ranks_before (a # t) y a)"
    using a_notin by (auto simp: ranks_before_def)
  have "sorted_wrt (ranks_before (a # t)) (insort_key ?f a ?ys)"
    by (rule insort_key_sorted_wrt [OF s1 s2 s3])
  then show ?case by (simp add: sorted_desc_def)
qed

text \<open>
  Claim C7.  For a frequency table \<open>t\<close> (its labels distinct, in first-seen order)
  and every \<open>n\<close>, \<open>most_common n t\<close> has \<open>n\<close> entries, or all of them when the table
  is shorter; they are entries of the table, listed from the highest count down with
  equal counts in first-seen order; and every entry left out ranks after every entry
  listed.  For the counts \<open>a: 5, b: 5, c: 3\<close> the top two labels are \<open>a, b\<close>.
  \<open>sorted(...)[:15]\<close> in \<open>categorize_detection_patterns\<close> is the same function.
\<close>

theorem most_common_ranking:
  assumes "distinct (map fst t)"
  shows "length (most_common n t) = min n (length t)
     \<and> set (most_common n t) \<subseteq> set t
     \<and> sorted_wrt (ranks_before t) (most_common n t)
     \<and> (\<forall>x \<in> set (most_common n t). \<forall>y \<in> set t - set (most_common n t). ranks_before t x y)
     \<and> map fst (most_common 2 [(''a'', 5), (''b'', 5), (''c'', 3)]) = [''a'', ''b'']"
proof -
  have d: "distinct t" using assms by (simp add: distinct_map)
  let ?s = "sorted_desc t"
  have set_s: "set ?s = set t" by (simp add: sorted_desc_def)
  have sw: "sorted_wrt (ranks_before t) ?s" using d by (rule sorted_desc_ranked)
  have "sorted_wrt (ranks_before t) (take n ?s @ drop n ?s)" using sw by simp
  then have split: "sorted_wrt (ranks_before t) (take n ?s)"
     "\<forall>x \<in> set (take n ?s). \<forall>y \<in> set (drop n ?s). ranks_before t x y"
    unfolding sorted_wrt_append by auto
  have rest: "set t - set (take n ?s) \<subseteq> set (drop n ?s)"
  proof -
    have "set t = set (take n ?s) \<union> set (drop n ?s)"
      using set_s by (metis append_take_drop_id set_append)
    then show ?thesis by auto
  qed
  have l: "length (most_common n t) = min n (length t)"
    by (simp add: most_common_def sorted_desc_def min.commute)
  have sub: "set (most_common n t) \<subseteq> set t"
    using set_s set_take_subset [of n ?s] by (simp add: most_common_def)
  have ex: "map fst (most_common 2 [(''a'', 5), (''b'', 5), (''c'', 3)]) = [''a'', ''b'']"
    by (simp add: most_common_def sorted_desc_def numeral_2_eq_2)
  from l sub split rest ex show ?thesis
    unfolding most_common_def by blast
qed

theorem most_common_ranking_witness:
  "distinct (map fst [(''c'', 3 :: int), (''a'', 5), (''b'', 5)])
   \<and> most_common 2 [(''c'', 3), (''a'', 5), (''b'', 5)] = [(''a'', 5), (''b'', 5)]
   \<and> sorted_wrt (ranks_before [(''c'', 3), (''a'', 5), (''b'', 5)]) [(''a'', 5), (''b'', 5)]"
proof -
  have h: "distinct (map fst [(''c'', 3 :: int), (''a'', 5), (''b'', 5)])" by simp
  have e: "most_common 2 [(''c'', 3), (''a'', 5), (''b'', 5)] = [(''a'', 5), (''b'', 5)]"
    by (simp add: most_common_def sorted_desc_def numeral_2_eq_2)
  from most_common_ranking [OF h, of 2] h e show ?thesis by simp
qed

lemma top_indicators_most_common:
  "top_indicators all_analyses = most_common 15 (foldl add_indicators [] all_analyses)"
  by (simp add: top_indicators_def most_common_def)

section \<open>Properties of the paginators\<close>

text \<open>
  What a response means for the loop of \<open>search_edit_summaries_2025\<close>: it
  \<open>continues\<close> the pagination when it is a non-empty page with a continuation
  token, \<open>next_token\<close> is that token, \<open>page_of\<close> the changes it carries (none when
  the fetch failed) and \<open>outcome_of\<close> the line printed for it.  \<open>exchanges\<close> is the
  paginator of the specification: at most \<open>fuel\<close> requests, each carrying the token
  of the response before it, ended by the first response that does not continue.
\<close>

definition continues :: "rc_data http \<Rightarrow> bool" where
  "continues resp =
     (case get_json True resp of
        Inl e \<Rightarrow> False
      | Inr d \<Rightarrow> recentchanges d \<noteq> []
                 \<and> (case rc_continue d of ContinueAt t \<Rightarrow> True | _ \<Rightarrow> False))"

definition next_token :: "rc_data http \<Rightarrow> string option" where
  "next_token resp =
     (case get_json True resp of
        Inl e \<Rightarrow> None
      | Inr d \<Rightarrow> (case rc_continue d of ContinueAt t \<Rightarrow> Some t | _ \<Rightarrow> None))"

definition page_of :: "rc_data http \<Rightarrow> change list" where
  "page_of resp = (case get_json True resp of Inl e \<Rightarrow> [] | Inr d \<Rightarrow> recentchanges d)"

definition outcome_of :: "rc_data http \<Rightarrow> batch_outcome" where
  "outcome_of resp =
     (case get_json True resp of
        Inl e \<Rightarrow> ErrorInBatch e
      | Inr d \<Rightarrow>
          if recentchanges d = [] then NoMoreChanges
          else (case rc_continue d of
                  NoContinue \<Rightarrow> FoundLast (length (recentchanges d))
                | ContinueWithout \<Rightarrow>
                    ErrorAfter (length (recentchanges d)) (KeyError ''rccontinue'')
                | ContinueAt t \<Rightarrow> FoundEdits (length (recentchanges d))))"

fun exchanges ::
  "(int \<Rightarrow> string option \<Rightarrow> rc_data http) \<Rightarrow> nat \<Rightarrow> int \<Rightarrow> string option
     \<Rightarrow> (string option \<times> rc_data http) list" where
  "exchanges api 0 b tok = []"
| "exchanges api (Suc k) b tok =
     (tok, api (b + 1) tok)
     # (if continues (api (b + 1) tok)
        then exchanges api k (b + 1) (next_token (api (b + 1) tok)) else [])"

fun numbered :: "int \<Rightarrow> 'a list \<Rightarrow> (int \<times> 'a) list" where
  "numbered b [] = []"
| "numbered b (x # xs) = (b + 1, x) # numbered (b + 1) xs"

lemma search_loop_exchanges:
  "fst (search_loop api fp ai M b st)
     = b + int (length (exchanges api (nat (M - b)) b (rccontinue st)))
   \<and> requests (snd (search_loop api fp ai M b st))
       = requests st @ map fst (exchanges api (nat (M - b)) b (rccontinue st))
   \<and> printed_lines (snd (search_loop api fp ai M b st))
       = printed_lines st
         @ numbered b (map (\<lambda>x. outcome_of (snd x)) (exchanges api (nat (M - b)) b (rccontinue st)))
   \<and> counters (snd (search_loop api fp ai M b st))
       = foldl (process_change fp ai) (counters st)
           (concat (map (\<lambda>x. page_of (snd x)) (exchanges api (nat (M - b)) b (rccontinue st))))"
proof (induction api fp ai M b st rule: search_loop.induct)
  case (1 api fp ai M b st)
  show ?case
  proof (cases "b < M")
    case False
    then have "nat (M - b) = 0" by simp
    with False show ?thesis by (simp add: search_loop.simps)
  next
    case True
    then have fuel: "nat (M - b) = Suc (nat (M - (b + 1)))" by simp
    let ?resp = "api (b + 1) (rccontinue st)"
    show ?thesis
    proof (cases "get_json True ?resp")
      case (Inl e)
      with True show ?thesis
        unfolding fuel
        by (simp add: search_loop.simps [of api fp ai M b st] say_def continues_def
            outcome_of_def page_of_def)
    next
      case (Inr data)
      show ?thesis
      proof (cases "recentchanges data = []")
        case True
        with \<open>b < M\<close> Inr show ?thesis
          unfolding fuel
          by (simp add: search_loop.simps [of api fp ai M b st] say_def continues_def
              outcome_of_def page_of_def)
      next
        case False
        show ?thesis
        proof (cases "rc_continue data")
          case NoContinue
          with False \<open>b < M\<close> Inr show ?thesis
            unfolding fuel
            by (simp add: search_loop.simps [of api fp ai M b st] say_def continues_def
                outcome_of_def page_of_def)
        next
          case ContinueWithout
          with False \<open>b < M\<close> Inr show ?thesis
            unfolding fuel
            by (simp add: search_loop.simps [of api fp ai M b st] say_def continues_def
                outcome_of_def page_of_def)
        next
          case (ContinueAt tok)
          from "1.IH" [OF \<open>b < M\<close> refl Inr False refl refl ContinueAt]
          show ?thesis using ContinueAt False \<open>b < M\<close> Inr
            unfolding fuel
            by (simp add: search_loop.simps [of api fp ai M b st] say_def continues_def
                outcome_of_def page_of_def next_token_def)
        qed
      qed
    qed
  qed
qed

lemma exchanges_length: "length (exchanges api k b tok) \<le> k"
  by (induction k arbitrary: b tok) auto

lemma exchanges_first: "0 < k \<Longrightarrow> exchanges api k b tok \<noteq> [] \<and> fst (exchanges api k b tok ! 0) = tok"
  by (cases k) auto

lemma exchanges_nth:
  "i < length (exchanges api k b tok) \<Longrightarrow>
   snd (exchanges api k b tok ! i) = api (b + 1 + int i) (fst (exchanges api k b tok ! i))"
proof (induction k arbitrary: b tok i)
  case 0
  then show ?case by simp
next
  case (Suc k)
  show ?case
  proof (cases i)
    case 0
    then show ?thesis by simp
  next
    case (Suc j)
    with Suc.prems have c: "continues (api (b + 1) tok)"
      and j: "j < length (exchanges api k (b + 1) (next_token (api (b + 1) tok)))"
      by (auto split: if_splits)
    from Suc.IH [OF j] c Suc show ?thesis by (simp add: add.commute add.left_commute)
  qed
qed

lemma exchanges_chain:
  "Suc i < length (exchanges api k b tok) \<Longrightarrow>
   continues (snd (exchanges api k b tok ! i))
   \<and> fst (exchanges api k b tok ! Suc i) = next_token (snd (exchanges api k b tok ! i))"
proof (induction k arbitrary: b tok i)
  case 0
  then show ?case by simp
next
  case (Suc k)
  from Suc.prems have c: "continues (api (b + 1) tok)" by (auto split: if_splits)
  let ?rest = "exchanges api k (b + 1) (next_token (api (b + 1) tok))"
  from Suc.prems c have l: "i < length ?rest" by simp
  show ?case
  proof (cases i)
    case 0
    with l have "0 < k" by (cases k) auto
    from exchanges_first [OF this, of api "b + 1" "next_token (api (b + 1) tok)"] c 0
    show ?thesis by simp
  next
    case (Suc j)
    with l have "Suc j < length ?rest" by simp
    from Suc.IH [OF this] c Suc show ?thesis by simp
  qed
qed

lemma exchanges_stop:
  "length (exchanges api k b tok) < k \<Longrightarrow>
   exchanges api k b tok \<noteq> [] \<and> \<not> continues (snd (last (exchanges api k b tok)))"
proof (induction k arbitrary: b tok)
  case 0
  then show ?case by simp
next
  case (Suc k)
  show ?case
  proof (cases "continues (api (b + 1) tok)")
    case False
    then show ?thesis by simp
  next
    case True
    let ?rest = "exchanges api k (b + 1) (next_token (api (b + 1) tok))"
    from Suc.prems True have "length ?rest < k" by simp
    from Suc.IH [OF this] True show ?thesis by simp
  qed
qed

lemma numbered_length: "length (numbered b xs) = length xs"
  by (induction xs arbitrary: b) auto

lemma numbered_nth: "i < length xs \<Longrightarrow> numbered b xs ! i = (b + 1 + int i, xs ! i)"
proof (induction xs arbitrary: b i)
  case Nil
  then show ?case by simp
next
  case (Cons x xs)
  then show ?case by (cases i) (auto simp: add.commute add.left_commute)
qed


lemma continues_iff:
  "continues resp \<longleftrightarrow>
     (\<exists>d t. get_json True resp = Inr d \<and> recentchanges d \<noteq> [] \<and> rc_continue d = ContinueAt t)"
  by (auto simp: continues_def split: sum.splits continuation.splits)

definition start_counters :: results where
  "start_counters = \<lparr>all_policies = [], ai_policies = [], total_edits_checked = 0,
                      edits_with_policies = 0, batches_processed = 0\<rparr>"

text \<open>
  Claim C3, as the code has it.  Let \<open>n\<close> be the number of fetch calls
  \<open>search_edit_summaries_2025\<close> makes; it returns after them, whatever the remote
  API answers.  \<open>n\<close> is at most \<open>max_batches\<close> (zero when the bound is not
  positive), \<open>batches_processed\<close> is \<open>n\<close> and each call printed one line.  The first
  request carries no token and each later one the token of the response before it;
  every response but the last was a non-empty page with a token.  The loop stops
  short of the ceiling only after a response that is a failed fetch, an empty page
  or a page without a usable token; the line printed for an empty page is
  \<open>NoMoreChanges\<close> and for a page without token \<open>FoundLast\<close>, neither an error.  The
  counters returned are those of the changes of all pages fetched.  When every
  response is a non-empty page with a token, exactly \<open>max_batches\<close> calls are made.
  The page loop of \<open>get_popular_wikiprojects\<close> has no ceiling.
\<close>

theorem search_edit_summaries_2025_bounded:
  fixes api fp ai max_batches
  defines "r \<equiv> search_edit_summaries_2025 api fp ai max_batches"
  defines "n \<equiv> length (requests (search_edit_summaries_2025 api fp ai max_batches))"
  shows "n \<le> nat max_batches
   \<and> batches_processed (counters r) = int n
   \<and> length (printed_lines r) = n
   \<and> (0 < n \<longrightarrow> requests r ! 0 = None)
   \<and> (\<forall>i. Suc i < n \<longrightarrow>
         continues (api (int i + 1) (requests r ! i))
         \<and> requests r ! Suc i = next_token (api (int i + 1) (requests r ! i)))
   \<and> (n < nat max_batches \<longrightarrow> 0 < n \<and> \<not> continues (api (int n) (requests r ! (n - 1))))
   \<and> (\<forall>i < n. printed_lines r ! i = (int i + 1, outcome_of (api (int i + 1) (requests r ! i))))
   \<and> counters r
       = (foldl (process_change fp ai) start_counters
            (concat (map (\<lambda>i. page_of (api (int i + 1) (requests r ! i))) [0..<n])))
         \<lparr>batches_processed := int n\<rparr>
   \<and> ((\<forall>b tok. continues (api b tok)) \<longrightarrow> n = nat max_batches)"
proof -
  let ?start = "\<lparr>counters = start_counters, rccontinue = None, printed_lines = [],
                  requests = []\<rparr>"
  let ?ex = "exchanges api (nat max_batches) 0 None"
  let ?run = "search_loop api fp ai max_batches 0 ?start"
  have r_def': "r = (snd ?run)\<lparr>counters := (counters (snd ?run))\<lparr>batches_processed := fst ?run\<rparr>\<rparr>"
    by (simp add: r_def search_edit_summaries_2025_def start_counters_def split_beta Let_def)
  from search_loop_exchanges [of api fp ai max_batches 0 ?start]
  have f: "fst ?run = int (length ?ex)"
    and q: "requests (snd ?run) = map fst ?ex"
    and p: "printed_lines (snd ?run) = numbered 0 (map (\<lambda>x. outcome_of (snd x)) ?ex)"
    and c: "counters (snd ?run)
              = foldl (process_change fp ai) start_counters (concat (map (\<lambda>x. page_of (snd x)) ?ex))"
    by simp_all
  have rq: "requests r = map fst ?ex" using q by (simp add: r_def')
  have n: "n = length ?ex" using rq by (simp add: n_def r_def)
  have resp: "\<And>i. i < n \<Longrightarrow> snd (?ex ! i) = api (int i + 1) (requests r ! i)"
    using exchanges_nth [of _ api "nat max_batches" 0 None] by (simp add: n rq add.commute)
  have c1: "n \<le> nat max_batches" using exchanges_length [of api "nat max_batches" 0 None] n by simp
  have c2: "batches_processed (counters r) = int n" using f n by (simp add: r_def')
  have c3: "length (printed_lines r) = n" using p n by (simp add: r_def' numbered_length)
  have c4: "0 < n \<longrightarrow> requests r ! 0 = None"
  proof
    assume "0 < n"
    with c1 have "0 < nat max_batches" by simp
    from exchanges_first [OF this, of api 0 None] show "requests r ! 0 = None"
      by (simp add: rq)
  qed
  have c5: "\<forall>i. Suc i < n \<longrightarrow>
         continues (api (int i + 1) (requests r ! i))
         \<and> requests r ! Suc i = next_token (api (int i + 1) (requests r ! i))"
  proof (intro allI impI)
    fix i assume i: "Suc i < n"
    then have "Suc i < length ?ex" and i': "i < n" by (simp_all add: n)
    from exchanges_chain [OF this(1)] resp [OF i'] i
    show "continues (api (int i + 1) (requests r ! i))
         \<and> requests r ! Suc i = next_token (api (int i + 1) (requests r ! i))"
      by (simp add: rq n)
  qed
  have c6: "n < nat max_batches \<longrightarrow> 0 < n \<and> \<not> continues (api (int n) (requests r ! (n - 1)))"
  proof
    assume "n < nat max_batches"
    then have "length ?ex < nat max_batches" by (simp add: n)
    from exchanges_stop [OF this] have ne: "?ex \<noteq> []" and nc: "\<not> continues (snd (last ?ex))"
      by simp_all
    from ne have pos: "0 < n" by (simp add: n)
    then have "snd (last ?ex) = api (int (n - 1) + 1) (requests r ! (n - 1))"
      using resp [of "n - 1"] ne by (simp add: last_conv_nth n)
    with nc pos show "0 < n \<and> \<not> continues (api (int n) (requests r ! (n - 1)))"
      by (simp add: of_nat_diff)
  qed
  have c7: "\<forall>i < n. printed_lines r ! i = (int i + 1, outcome_of (api (int i + 1) (requests r ! i)))"
  proof (intro allI impI)
    fix i assume i: "i < n"
    then have "printed_lines r ! i = (0 + 1 + int i, outcome_of (snd (?ex ! i)))"
      using p by (simp add: r_def' numbered_nth n)
    with resp [OF i] show "printed_lines r ! i = (int i + 1, outcome_of (api (int i + 1) (requests r ! i)))"
      by (simp add: add.commute)
  qed
  have pages: "map (\<lambda>x. page_of (snd x)) ?ex
                 = map (\<lambda>i. page_of (api (int i + 1) (requests r ! i))) [0..<n]"
  proof -
    have "map (\<lambda>x. page_of (snd x)) ?ex
            = map (\<lambda>x. page_of (snd x)) (map (\<lambda>i. ?ex ! i) [0..<length ?ex])"
      by (simp only: map_nth)
    also have "\<dots> = map (\<lambda>i. page_of (snd (?ex ! i))) [0..<length ?ex]"
      by (simp only: map_map comp_def)
    also have "\<dots> = map (\<lambda>i. page_of (api (int i + 1) (requests r ! i))) [0..<n]"
      using resp by (simp add: n)
    finally show ?thesis .
  qed
  have c8: "counters r
       = (foldl (process_change fp ai) start_counters
            (concat (map (\<lambda>i. page_of (api (int i + 1) (requests r ! i))) [0..<n])))
         \<lparr>batches_processed := int n\<rparr>"
    using c f n pages by (simp add: r_def')
  have c9: "(\<forall>b tok. continues (api b tok)) \<longrightarrow> n = nat max_batches"
    using c6 c1 by (metis le_neq_implies_less)
  from c1 c2 c3 c4 c5 c6 c7 c8 c9 show ?thesis by (intro conjI)
qed


definition rc_endless :: "int \<Rightarrow> string option \<Rightarrow> rc_data http" where
  "rc_endless b tok =
     Response 200 (Some \<lparr>recentchanges = [\<lparr>rc_comment = Some ''per WP:V''\<rparr>],
                          rc_continue = ContinueAt ''next''\<rparr>)"

definition two_page_api :: "int \<Rightarrow> string option \<Rightarrow> rc_data http" where
  "two_page_api b tok =
     (if b = 1
      then Response 200 (Some \<lparr>recentchanges = [\<lparr>rc_comment = Some ''per WP:V''\<rparr>],
                                rc_continue = ContinueAt ''next''\<rparr>)
      else Response 200 (Some \<lparr>recentchanges = [\<lparr>rc_comment = None\<rparr>],
                                rc_continue = NoContinue\<rparr>))"

theorem search_edit_summaries_2025_bounded_witness:
  "requests (search_edit_summaries_2025 two_page_api (\<lambda>c. [''WP:V'']) (\<lambda>p. False) 5)
     = [None, Some ''next'']
   \<and> continues (two_page_api 1 None)
   \<and> \<not> continues (two_page_api 2 (Some ''next''))
   \<and> printed_lines (search_edit_summaries_2025 two_page_api (\<lambda>c. [''WP:V'']) (\<lambda>p. False) 5) ! 1
       = (2, FoundLast 1)
   \<and> total_edits_checked
        (counters (search_edit_summaries_2025 two_page_api (\<lambda>c. [''WP:V'']) (\<lambda>p. False) 5)) = 2
   \<and> (list_all (\<lambda>b. continues (rc_endless b None) \<and> continues (rc_endless b (Some ''next'')))
         [1, 2, 3])
   \<and> length (requests (search_edit_summaries_2025 rc_endless (\<lambda>c. []) (\<lambda>p. False) 3)) = 3"
proof -
  let ?r = "search_edit_summaries_2025 two_page_api (\<lambda>c. [''WP:V'']) (\<lambda>p. False) 5"
  note t = search_edit_summaries_2025_bounded [of two_page_api "\<lambda>c. [''WP:V'']" "\<lambda>p. False" 5]
  have q: "requests ?r = [None, Some ''next'']" by code_simp
  have n: "length (requests ?r) = 2" unfolding q by simp
  from t have "\<forall>i. Suc i < length (requests ?r) \<longrightarrow>
      continues (two_page_api (int i + 1) (requests ?r ! i))" by blast
  then have "continues (two_page_api (int 0 + 1) (requests ?r ! 0))" unfolding n by simp
  then have w1: "continues (two_page_api 1 None)" unfolding q by simp
  from t have "length (requests ?r) < nat 5 \<longrightarrow>
      \<not> continues (two_page_api (int (length (requests ?r)))
                     (requests ?r ! (length (requests ?r) - 1)))" by blast
  then have "\<not> continues (two_page_api (int 2) (requests ?r ! (2 - 1)))" unfolding n by simp
  then have w2: "\<not> continues (two_page_api 2 (Some ''next''))" unfolding q by simp
  from t have "\<forall>i < length (requests ?r).
      printed_lines ?r ! i = (int i + 1, outcome_of (two_page_api (int i + 1) (requests ?r ! i)))"
    by blast
  then have "printed_lines ?r ! 1 = (int 1 + 1, outcome_of (two_page_api (int 1 + 1) (requests ?r ! 1)))"
    unfolding n by simp
  then have w3: "printed_lines ?r ! 1 = (2, FoundLast 1)"
    unfolding q by (simp add: outcome_of_def two_page_api_def get_json_def)
  have w4: "total_edits_checked (counters ?r) = 2" by code_simp
  have h: "\<forall>b tok. continues (rc_endless b tok)"
    by (simp add: continues_def rc_endless_def get_json_def)
  then have w5: "list_all (\<lambda>b. continues (rc_endless b None) \<and> continues (rc_endless b (Some ''next'')))
         [1, 2, 3]" by simp
  from search_edit_summaries_2025_bounded [of rc_endless "\<lambda>c. []" "\<lambda>p. False" 3] h
  have w6: "length (requests (search_edit_summaries_2025 rc_endless (\<lambda>c. []) (\<lambda>p. False) 3)) = 3"
    by simp
  from q w1 w2 w3 w4 w5 w6 show ?thesis by (intro conjI)
qed

definition endless_api :: "nat \<Rightarrow> string option \<Rightarrow> ap_data http" where
  "endless_api n tok = Response 200 (Some \<lparr>allpages = Some [], apcontinue = Some ''next''\<rparr>)"

lemma wikiprojects_loop_endless:
  assumes "wikiprojects_loop api b tok w = Some y"
  shows "api \<noteq> endless_api"
proof (rule wikiprojects_loop.raw_induct
    [where P = "\<lambda>api b tok w y. api \<noteq> endless_api", rotated, OF assms])
  fix loop :: "(nat \<Rightarrow> string option \<Rightarrow> ap_data http) \<Rightarrow> nat \<Rightarrow> string option
                 \<Rightarrow> wikiproject list \<Rightarrow> (exn + wikiproject list) option"
    and api b tok w y
  assume ih: "\<And>api b tok w y. loop api b tok w = Some y \<Longrightarrow> api \<noteq> endless_api"
    and step: "(case get_json True (api (b + 1) (sent_token tok)) of
                  Inl e \<Rightarrow> Some (Inl e)
                | Inr data \<Rightarrow>
                    (case main_pages data of
                       Inl e \<Rightarrow> Some (Inl e)
                     | Inr ws \<Rightarrow>
                         (case apcontinue data of
                            None \<Rightarrow> Some (Inr (w @ ws))
                          | Some tok \<Rightarrow> loop api (b + 1) (Some tok) (w @ ws)))) = Some y"
  show "api \<noteq> endless_api"
  proof
    assume e: "api = endless_api"
    from step have "loop endless_api (b + 1) (Some ''next'') (w @ []) = Some y"
      unfolding e by (simp add: endless_api_def get_json_def main_pages_def)
    from ih [OF this] show False by simp
  qed
qed

text \<open>
  Claim C3 as stated fails on \<open>get_popular_wikiprojects\<close>: against an API every
  response of which carries an \<open>apcontinue\<close> token, its page loop never returns,
  whatever number of fetch calls is allowed.
\<close>

theorem wikiprojects_loop_never_returns:
  "wikiprojects_loop endless_api 0 None [] = None"
proof (cases "wikiprojects_loop endless_api 0 None []")
  case None
  then show ?thesis .
next
  case (Some y)
  then show ?thesis using wikiprojects_loop_endless by blast
qed

text \<open>Where a response has no \<open>apcontinue\<close> token, the page loop returns its pages.\<close>

lemma wikiprojects_loop_last_page:
  "get_json True (api (b + 1) (sent_token tok)) = Inr data \<Longrightarrow> main_pages data = Inr ws \<Longrightarrow>
   apcontinue data = None \<Longrightarrow> wikiprojects_loop api b tok w = Some (Inr (w @ ws))"
  by (subst wikiprojects_loop.simps) simp

section \<open>Properties of the context windows\<close>

text \<open>
  \<open>is_window lit text m\<close>: \<open>m\<close> is a stretch of \<open>text\<close> made of an occurrence of
  \<open>lit\<close> (up to case) with at most \<open>radius\<close> characters of the text before it and at
  most \<open>radius\<close> after it.
\<close>

definition is_window :: "string \<Rightarrow> string \<Rightarrow> string \<Rightarrow> bool" where
  "is_window lit text m =
     (\<exists>a pre occ post b. text = a @ pre @ occ @ post @ b \<and> m = pre @ occ @ post
        \<and> length pre \<le> radius \<and> length post \<le> radius \<and> lower occ = lower lit)"

lemma find_last_within_Some:
  "find_last_within n lit xs = Some k \<Longrightarrow> k \<le> n \<and> ci_prefix lit (drop k xs)"
  by (induction n) (auto split: if_splits)

lemma is_window_drop: "is_window lit (drop n xs) m \<Longrightarrow> is_window lit xs m"
proof -
  assume "is_window lit (drop n xs) m"
  then obtain a pre occ post b where w: "drop n xs = a @ pre @ occ @ post @ b"
    "m = pre @ occ @ post" "length pre \<le> radius" "length post \<le> radius" "lower occ = lower lit"
    unfolding is_window_def by blast
  have "xs = (take n xs @ a) @ pre @ occ @ post @ b"
    using w(1) by (metis append.assoc append_take_drop_id)
  with w show ?thesis unfolding is_window_def by blast
qed

lemma is_window_tl: "is_window lit (tl xs) m \<Longrightarrow> is_window lit xs m"
  using is_window_drop [of lit 1 xs m] by (simp add: drop_Suc)

lemma window_here:
  assumes "ci_prefix lit (drop k xs)" "k \<le> radius"
  shows "is_window lit xs (take (k + length lit + min radius (length xs - k - length lit)) xs)"
proof -
  let ?p = "min radius (length xs - k - length lit)"
  let ?pre = "take k xs"
  let ?occ = "take (length lit) (drop k xs)"
  let ?post = "take ?p (drop (k + length lit) xs)"
  let ?b = "drop (k + length lit + ?p) xs"
  have low: "lower ?occ = lower lit"
    using assms(1) by (simp add: ci_prefix_def)
  have m: "take (k + length lit + ?p) xs = ?pre @ ?occ @ ?post"
    by (simp add: take_add add.commute)
  have "xs = take (k + length lit + ?p) xs @ ?b" by simp
  then have t: "xs = [] @ ?pre @ ?occ @ ?post @ ?b" using m by (metis append.assoc append_Nil)
  have "length ?pre \<le> radius" "length ?post \<le> radius" using assms(2) by simp_all
  with t m low show ?thesis unfolding is_window_def by blast
qed

lemma findall_ctx_windows:
  "m \<in> set (findall_ctx lit xs) \<Longrightarrow> is_window lit xs m"
proof (induction lit xs rule: findall_ctx.induct)
  case (1 lit xs)
  show ?case
  proof (cases "xs = []")
    case True
    with "1.prems" have "m = [] \<and> lit = []"
      by (auto simp: findall_ctx.simps split: if_splits)
    with True show ?thesis by (simp add: is_window_def)
  next
    case False
    show ?thesis
    proof (cases "find_last_within (min radius (length xs)) lit xs")
      case None
      with False "1.prems" have "m \<in> set (findall_ctx lit (tl xs))"
        by (simp add: findall_ctx.simps [of lit xs])
      then have "is_window lit (tl xs) m" by (rule "1.IH"(1) [OF False None])
      then show ?thesis by (rule is_window_tl)
    next
      case (Some k)
      let ?e = "k + length lit + min radius (length xs - k - length lit)"
      from find_last_within_Some [OF Some]
      have k: "k \<le> radius" "ci_prefix lit (drop k xs)" by simp_all
      from False Some "1.prems"
      have "m = take ?e xs \<or> m \<in> set (findall_ctx lit (drop (max 1 ?e) xs))"
        by (simp add: findall_ctx.simps [of lit xs] Let_def)
      then show ?thesis
      proof
        assume "m = take ?e xs"
        then show ?thesis using window_here [OF k(2) k(1)] by simp
      next
        assume "m \<in> set (findall_ctx lit (drop (max 1 ?e) xs))"
        then have "is_window lit (drop (max 1 ?e) xs) m"
          by (rule "1.IH"(2) [OF False Some refl])
        then show ?thesis by (rule is_window_drop)
      qed
    qed
  qed
qed

lemma replace_nl_no_nl: "nl \<notin> set (replace_nl m)"
  by (auto simp: replace_nl_def nl_def)

lemma indicator_scan_examples:
  "e \<in> set (indicator_scan ind t) \<Longrightarrow> x \<in> set (examples e) \<Longrightarrow>
   indicator e = ind \<and> length x \<le> 200 \<and> nl \<notin> set x
   \<and> (\<exists>m. is_window ind t m \<and> x = take 200 (replace_nl m))"
proof -
  assume e: "e \<in> set (indicator_scan ind t)" and x: "x \<in> set (examples e)"
  from e have ee: "e = \<lparr>indicator = ind, count = length (findall_ctx ind t),
                        examples = map (\<lambda>m. take 200 (replace_nl m)) (take 2 (findall_ctx ind t))\<rparr>"
    by (auto simp: indicator_scan_def Let_def split: if_splits)
  with x obtain m where m: "m \<in> set (take 2 (findall_ctx ind t))" "x = take 200 (replace_nl m)"
    by auto
  from m(1) have "m \<in> set (findall_ctx ind t)" by (rule in_set_takeD)
  then have w: "is_window ind t m" by (rule findall_ctx_windows)
  have "nl \<notin> set x" using m(2) replace_nl_no_nl [of m] by (auto dest: in_set_takeD)
  with ee m(2) w show ?thesis by auto
qed

lemma finditer_word_match:
  "p \<in> set (finditer_word kw s i) \<Longrightarrow> word_match kw s p"
proof (induction kw s i rule: finditer_word.induct)
  case (1 kw s i)
  show ?case
  proof (cases "length s < i")
    case True
    with "1.prems" show ?thesis by (simp add: finditer_word.simps)
  next
    case False
    note inb = False
    show ?thesis
    proof (cases "word_match kw s i")
      case True
      with inb "1.prems"
      have "p = i \<or> p \<in> set (finditer_word kw s (i + max 1 (length kw)))"
        by (simp add: finditer_word.simps [of kw s i])
      then show ?thesis using True "1.IH"(1) [OF inb True] by blast
    next
      case False
      with inb "1.prems" have "p \<in> set (finditer_word kw s (Suc i))"
        by (simp add: finditer_word.simps [of kw s i])
      then show ?thesis by (rule "1.IH"(2) [OF inb False])
    qed
  qed
qed

lemma finditer_word_bound:
  "p \<in> set (finditer_word kw s i) \<Longrightarrow> p \<le> length s"
proof (induction kw s i rule: finditer_word.induct)
  case (1 kw s i)
  show ?case
  proof (cases "length s < i")
    case True
    with "1.prems" show ?thesis by (simp add: finditer_word.simps)
  next
    case False
    note inb = False
    show ?thesis
    proof (cases "word_match kw s i")
      case True
      with inb "1.prems"
      have "p = i \<or> p \<in> set (finditer_word kw s (i + max 1 (length kw)))"
        by (simp add: finditer_word.simps [of kw s i])
      then show ?thesis using inb "1.IH"(1) [OF inb True] by auto
    next
      case False
      with inb "1.prems" have "p \<in> set (finditer_word kw s (Suc i))"
        by (simp add: finditer_word.simps [of kw s i])
      then show ?thesis by (rule "1.IH"(2) [OF inb False])
    qed
  qed
qed

lemma length_strip: "length (strip s) \<le> length s"
proof -
  have "length (dropWhile is_space (rev (dropWhile is_space s))) \<le> length (rev (dropWhile is_space s))"
    by (rule length_dropWhile_le)
  also have "\<dots> \<le> length s" by (simp add: length_dropWhile_le)
  finally show ?thesis by (simp add: strip_def)
qed

definition mention_ok :: "string \<Rightarrow> mention \<Rightarrow> bool" where
  "mention_ok part m =
     (m_position m + length (m_keyword m) \<le> length part
      \<and> ci_prefix (m_keyword m) (drop (m_position m) part)
      \<and> m_context m = strip (slice part (m_position m - 100)
                               (min (length part) (m_position m + length (m_keyword m) + 100)))
      \<and> length (m_context m) \<le> 200 + length (m_keyword m))"

lemma mention_at_ok:
  assumes "p \<in> set (finditer_word kw part 0)"
  shows "mention_ok part (mention_at kw sec part p)"
proof -
  have wm: "word_match kw part p" using assms by (rule finditer_word_match)
  have pl: "p \<le> length part" using assms by (rule finditer_word_bound)
  from wm have cp: "ci_prefix kw (drop p part)" by (simp add: word_match_def)
  then have "length kw \<le> length part - p" by (simp add: ci_prefix_def)
  with pl have b: "p + length kw \<le> length part" by simp
  have st: "nat (max 0 (int p - 100)) = p - 100" by simp
  let ?stop = "min (length part) (p + length kw + 100)"
  have "length (slice part (p - 100) ?stop) \<le> ?stop - (p - 100)"
    by (simp add: slice_def)
  also have "\<dots> \<le> 200 + length kw" by simp
  finally have "length (strip (slice part (p - 100) ?stop)) \<le> 200 + length kw"
    using length_strip [of "slice part (p - 100) ?stop"] by simp
  with b cp st show ?thesis
    by (simp add: mention_ok_def mention_at_def Let_def)
qed

lemma section_mentions_ok:
  "m \<in> set (section_mentions kws sec part) \<Longrightarrow> mention_ok part m \<and> m_keyword m \<in> set kws"
  by (auto simp: section_mentions_def mention_at_ok) (simp add: mention_at_def Let_def)

lemma scan_parts_mentions:
  "m \<in> set (fst (scan_parts kws parts ic cur (ms, ss))) \<Longrightarrow>
   m \<in> set ms \<or> (\<exists>part \<in> set parts. mention_ok part m \<and> m_keyword m \<in> set kws)"
proof (induction parts arbitrary: ic cur ms ss)
  case Nil
  then show ?case by simp
next
  case (Cons part parts)
  show ?case
  proof (cases ic)
    case True
    with Cons.prems have "m \<in> set (fst (scan_parts kws parts False cur
        (ms @ section_mentions kws cur part, ss @ section_summary kws cur part)))" by simp
    from Cons.IH [OF this] show ?thesis using section_mentions_ok by auto
  next
    case False
    with Cons.prems have "m \<in> set (fst (scan_parts kws parts True (strip part) (ms, ss)))" by simp
    from Cons.IH [OF this] show ?thesis by auto
  qed
qed

lemma extract_mentions_ok:
  "m \<in> set (ai_mentions (extract_ai_references kws w)) \<Longrightarrow>
   \<exists>part \<in> set (re_split_headers 2 w). mention_ok part m \<and> m_keyword m \<in> set kws"
proof -
  assume a: "m \<in> set (ai_mentions (extract_ai_references kws w))"
  then have ne: "w \<noteq> []" by (auto simp: extract_ai_references_def)
  obtain ms ss where r: "scan_parts kws (re_split_headers 2 w) True ''Introduction'' ([], []) = (ms, ss)"
    by (cases "scan_parts kws (re_split_headers 2 w) True ''Introduction'' ([], [])")
  with a ne have "m \<in> set (fst (scan_parts kws (re_split_headers 2 w) True ''Introduction'' ([], [])))"
    by (simp add: extract_ai_references_def)
  from scan_parts_mentions [OF this] show ?thesis by simp
qed

lemma ai_related_keywords_short: "kw \<in> set ai_related_keywords \<Longrightarrow> length kw \<le> 23"
  by (auto simp: ai_related_keywords_def)

text \<open>
  Claim C6, as the code has it.  Every example \<open>analyze_afd_text\<close> attaches to an
  indicator has at most 200 characters and no newline, and is the start of a window
  of at most 100 characters on each side of an occurrence of the indicator, with
  the newlines replaced by spaces.  Every mention of \<open>extract_ai_references\<close> lies in
  one of the parts of the text: its position and the keyword's length stay within
  that part, the keyword occurs there, and its context is the window of at most
  100 characters on each side, clipped to the part and stripped of surrounding
  whitespace, so at most 200 characters longer than the keyword (at most 223 for
  the keywords of the source).  Newlines inside that context are kept.
\<close>

theorem context_windows_bounded:
  "(\<forall>an. analyze_afd_text (Some t) a = Some an \<longrightarrow>
      (\<forall>e \<in> set (detection_indicators an). \<forall>x \<in> set (examples e).
         length x \<le> 200 \<and> nl \<notin> set x
         \<and> (\<exists>m. is_window (indicator e) t m \<and> x = take 200 (replace_nl m))))
   \<and> (\<forall>m \<in> set (ai_mentions (extract_ai_references kws w)).
        \<exists>part \<in> set (re_split_headers 2 w).
           m_position m + length (m_keyword m) \<le> length part
         \<and> ci_prefix (m_keyword m) (drop (m_position m) part)
         \<and> m_context m = strip (slice part (m_position m - 100)
                                  (min (length part) (m_position m + length (m_keyword m) + 100)))
         \<and> length (m_context m) \<le> 200 + length (m_keyword m))
   \<and> (\<forall>m \<in> set (ai_mentions (extract_ai_references ai_related_keywords w)).
        length (m_context m) \<le> 223)"
proof -
  have p1: "\<forall>an. analyze_afd_text (Some t) a = Some an \<longrightarrow>
      (\<forall>e \<in> set (detection_indicators an). \<forall>x \<in> set (examples e).
         length x \<le> 200 \<and> nl \<notin> set x
         \<and> (\<exists>m. is_window (indicator e) t m \<and> x = take 200 (replace_nl m)))"
  proof (intro allI impI ballI)
    fix an e x
    assume an: "analyze_afd_text (Some t) a = Some an"
      and e: "e \<in> set (detection_indicators an)" and x: "x \<in> set (examples e)"
    from an have "detection_indicators an = find_detection_indicators indicators t"
      by (auto simp: analyze_afd_text_def split: if_splits)
    with e obtain ind where "e \<in> set (indicator_scan ind t)"
      by (auto simp: find_detection_indicators_def)
    from indicator_scan_examples [OF this x]
    show "length x \<le> 200 \<and> nl \<notin> set x
           \<and> (\<exists>m. is_window (indicator e) t m \<and> x = take 200 (replace_nl m))" by auto
  qed
  have p2: "\<forall>m \<in> set (ai_mentions (extract_ai_references kws w)).
        \<exists>part \<in> set (re_split_headers 2 w).
           m_position m + length (m_keyword m) \<le> length part
         \<and> ci_prefix (m_keyword m) (drop (m_position m) part)
         \<and> m_context m = strip (slice part (m_position m - 100)
                                  (min (length part) (m_position m + length (m_keyword m) + 100)))
         \<and> length (m_context m) \<le> 200 + length (m_keyword m)"
  proof
    fix m
    assume "m \<in> set (ai_mentions (extract_ai_references kws w))"
    from extract_mentions_ok [OF this]
    show "\<exists>part \<in> set (re_split_headers 2 w).
             m_position m + length (m_keyword m) \<le> length part
           \<and> ci_prefix (m_keyword m) (drop (m_position m) part)
           \<and> m_context m = strip (slice part (m_position m - 100)
                                    (min (length part) (m_position m + length (m_keyword m) + 100)))
           \<and> length (m_context m) \<le> 200 + length (m_keyword m)"
      by (auto simp: mention_ok_def)
  qed
  have p3: "\<forall>m \<in> set (ai_mentions (extract_ai_references ai_related_keywords w)).
        length (m_context m) \<le> 223"
  proof
    fix m
    assume "m \<in> set (ai_mentions (extract_ai_references ai_related_keywords w))"
    from extract_mentions_ok [OF this] obtain part where
      "mention_ok part m" "m_keyword m \<in> set ai_related_keywords" by blast
    then have "length (m_context m) \<le> 200 + length (m_keyword m)" "length (m_keyword m) \<le> 23"
      unfolding mention_ok_def using ai_related_keywords_short [of "m_keyword m"] by blast+
    then show "length (m_context m) \<le> 223" by linarith
  qed
  from p1 p2 p3 show ?thesis by blast
qed


theorem context_windows_bounded_witness:
  "analyze_afd_text (Some ''a GPT'') ''X''
     = Some \<lparr>article = ''X'', text_length = 5,
             detection_indicators =
               [\<lparr>indicator = ''GPT'', count = 1, examples = [''a GPT'']\<rparr>]\<rparr>
   \<and> length ''a GPT'' \<le> 200 \<and> nl \<notin> set ''a GPT''
   \<and> (\<exists>m. is_window ''GPT'' ''a GPT'' m \<and> ''a GPT'' = take 200 (replace_nl m))
   \<and> ai_mentions (extract_ai_references ai_related_keywords ''an AI'')
       = [\<lparr>m_keyword = ''AI'', m_section = ''Introduction'', m_context = ''an AI'',
           m_position = 3\<rparr>]
   \<and> length ''an AI'' \<le> 223"
proof -
  have e1: "analyze_afd_text (Some ''a GPT'') ''X''
     = Some \<lparr>article = ''X'', text_length = 5,
             detection_indicators =
               [\<lparr>indicator = ''GPT'', count = 1, examples = [''a GPT'']\<rparr>]\<rparr>"
    by code_simp
  have e2: "ai_mentions (extract_ai_references ai_related_keywords ''an AI'')
       = [\<lparr>m_keyword = ''AI'', m_section = ''Introduction'', m_context = ''an AI'',
           m_position = 3\<rparr>]"
    by code_simp
  from context_windows_bounded [of "''a GPT''" "''X''" ai_related_keywords "''an AI''"] e1 e2
  show ?thesis by simp
qed

text \<open>
  Claim C6 as stated fails on \<open>extract_ai_references\<close>: the context of the mention
  of \<open>AI\<close> in a two-line text holds the newline between the lines.
\<close>

theorem extract_ai_references_context_keeps_newline:
  "map m_context (ai_mentions (extract_ai_references ai_related_keywords (''x'' @ [nl] @ ''AI'')))
     = [''x'' @ [nl] @ ''AI'']
   \<and> nl \<in> set (''x'' @ [nl] @ ''AI'')"
proof -
  have "map m_context
          (ai_mentions (extract_ai_references ai_related_keywords (''x'' @ [nl] @ ''AI'')))
        = [''x'' @ [nl] @ ''AI'']"
    by code_simp
  then show ?thesis by simp
qed

section \<open>Properties of \<open>get_afd_discussions_ai\<close>\<close>

text \<open>
  The results the search for a keyword returned (none when the fetch raised), the
  titles among them, and the results that carry both fields read by subscript.
\<close>

definition results_of :: "(string \<Rightarrow> search_result list http) \<Rightarrow> string \<Rightarrow> search_result list" where
  "results_of api keyword =
     (case get_json False (api keyword) of Inl e \<Rightarrow> [] | Inr results \<Rightarrow> results)"

fun titles :: "search_result list \<Rightarrow> string list" where
  "titles [] = []"
| "titles (r # rs) = (case sr_title r of None \<Rightarrow> titles rs | Some t \<Rightarrow> t # titles rs)"

definition returned_titles :: "(string \<Rightarrow> search_result list http) \<Rightarrow> string \<Rightarrow> string list" where
  "returned_titles api keyword = titles (results_of api keyword)"

definition complete :: "search_result \<Rightarrow> bool" where
  "complete r = (sr_title r \<noteq> None \<and> sr_snippet r \<noteq> None)"

lemma add_results_inv:
  assumes "add_results kw rs (seen, ds, n) = ((seen', ds', n'), raised)"
    and "set (map d_title ds) \<subseteq> seen" and "distinct (map d_title ds)"
  shows "set (map d_title ds') \<subseteq> seen' \<and> distinct (map d_title ds')
     \<and> (\<exists>new. ds' = ds @ new
           \<and> (\<forall>d \<in> set new. d_keyword d = kw \<and> d_title d \<in> set (titles rs) - seen))"
  using assms
proof (induction rs arbitrary: seen ds n)
  case Nil
  then show ?case by auto
next
  case (Cons r rs)
  show ?case
  proof (cases "sr_title r")
    case None
    with Cons.prems show ?thesis by auto
  next
    case (Some t)
    note title = Some
    show ?thesis
    proof (cases "t \<in> seen")
      case True
      with title Cons.prems have "add_results kw rs (seen, ds, n) = ((seen', ds', n'), raised)"
        by simp
      from Cons.IH [OF this Cons.prems(2,3)] obtain new where n:
        "set (map d_title ds') \<subseteq> seen'" "distinct (map d_title ds')" "ds' = ds @ new"
        "\<forall>d \<in> set new. d_keyword d = kw \<and> d_title d \<in> set (titles rs) - seen"
        by blast
      have "\<forall>d \<in> set new. d_keyword d = kw \<and> d_title d \<in> set (titles (r # rs)) - seen"
        using n(4) title by auto
      then have "\<exists>new. ds' = ds @ new
           \<and> (\<forall>d \<in> set new. d_keyword d = kw \<and> d_title d \<in> set (titles (r # rs)) - seen)"
        using n(3) by blast
      with n(1,2) show ?thesis by (intro conjI)
    next
      case False
      show ?thesis
      proof (cases "sr_snippet r")
        case None
        with False title Cons.prems have "seen' = insert t seen" "ds' = ds" by simp_all
        with Cons.prems(2,3) show ?thesis by auto
      next
        case (Some snip)
        let ?d = "discussion_of kw t snip r"
        have t: "d_title ?d = t" "d_keyword ?d = kw" by (simp_all add: discussion_of_def)
        from False title Some Cons.prems
        have a: "add_results kw rs (insert t seen, ds @ [?d], n + 1) = ((seen', ds', n'), raised)"
          by simp
        have i1: "set (map d_title (ds @ [?d])) \<subseteq> insert t seen"
          using Cons.prems(2) t by auto
        have i2: "distinct (map d_title (ds @ [?d]))"
          using Cons.prems(2,3) False t by auto
        from Cons.IH [OF a i1 i2] obtain new where n:
          "set (map d_title ds') \<subseteq> seen'" "distinct (map d_title ds')"
          "ds' = (ds @ [?d]) @ new"
          "\<forall>d \<in> set new. d_keyword d = kw \<and> d_title d \<in> set (titles rs) - insert t seen"
          by blast
        have a1: "ds' = ds @ (?d # new)" using n(3) by simp
        have a2: "\<forall>d \<in> set (?d # new). d_keyword d = kw
              \<and> d_title d \<in> set (titles (r # rs)) - seen"
          using n(4) t False title by auto
        have "\<exists>new. ds' = ds @ new
           \<and> (\<forall>d \<in> set new. d_keyword d = kw \<and> d_title d \<in> set (titles (r # rs)) - seen)"
          using a1 a2 by (rule_tac x = "?d # new" in exI) (rule conjI)
        with n(1,2) show ?thesis by (intro conjI)
      qed
    qed
  qed
qed

lemma add_results_complete:
  assumes "list_all complete rs"
    and "add_results kw rs (seen, ds, n) = ((seen', ds', n'), raised)"
    and "seen = set (map d_title ds)"
  shows "raised = None \<and> seen' = set (map d_title ds') \<and> seen' = seen \<union> set (titles rs)"
  using assms
proof (induction rs arbitrary: seen ds n)
  case Nil
  then show ?case by auto
next
  case (Cons r rs)
  from Cons.prems(1) obtain t snip where f: "sr_title r = Some t" "sr_snippet r = Some snip"
    by (auto simp: complete_def)
  from Cons.prems(1) have rest: "list_all complete rs" by simp
  show ?case
  proof (cases "t \<in> seen")
    case True
    with f Cons.prems have "add_results kw rs (seen, ds, n) = ((seen', ds', n'), raised)"
      by simp
    from Cons.IH [OF rest this Cons.prems(3)] True f show ?thesis by auto
  next
    case False
    let ?d = "discussion_of kw t snip r"
    have t: "d_title ?d = t" by (simp add: discussion_of_def)
    from False f Cons.prems
    have a: "add_results kw rs (insert t seen, ds @ [?d], n + 1) = ((seen', ds', n'), raised)"
      by simp
    have i: "insert t seen = set (map d_title (ds @ [?d]))"
      using Cons.prems(3) t by simp
    from Cons.IH [OF rest a i] f show ?thesis by auto
  qed
qed

lemma afd_run_snoc: "afd_run (ks @ [k]) api = search_keyword api (afd_run ks api) k"
  by (simp add: afd_run_def)

lemma find_snoc:
  "List.find P (xs @ [x])
     = (case List.find P xs of Some y \<Rightarrow> Some y | None \<Rightarrow> if P x then Some x else None)"
  by (induction xs) auto

lemma find_None_iff': "List.find P xs = None \<longleftrightarrow> (\<forall>x \<in> set xs. \<not> P x)"
  by (induction xs) auto

lemma search_keyword_cases:
  obtains (failed) e where "get_json False (api k) = Inl e"
      "seen_titles (search_keyword api st k) = seen_titles st"
      "all_discussions (search_keyword api st k) = all_discussions st"
      "results_of api k = []"
  | (answered) rs seen' ds' n' raised where "get_json False (api k) = Inr rs"
      "add_results k rs (seen_titles st, all_discussions st, 0) = ((seen', ds', n'), raised)"
      "seen_titles (search_keyword api st k) = seen'"
      "all_discussions (search_keyword api st k) = ds'"
      "results_of api k = rs"
proof (cases "get_json False (api k)")
  case (Inl e)
  then show ?thesis by (intro failed [of e]) (simp_all add: search_keyword_def results_of_def)
next
  case (Inr rs)
  obtain acc raised where
    "add_results k rs (seen_titles st, all_discussions st, 0) = (acc, raised)"
    by (cases "add_results k rs (seen_titles st, all_discussions st, 0)")
  moreover obtain seen' ds' n' where "acc = (seen', ds', n')" by (cases acc)
  ultimately have
    a: "add_results k rs (seen_titles st, all_discussions st, 0) = ((seen', ds', n'), raised)"
    by simp
  with Inr show ?thesis
    by (intro answered [of rs seen' ds' n' raised]) (simp_all add: search_keyword_def results_of_def)
qed

lemma afd_run_inv:
  "set (map d_title (all_discussions (afd_run ks api))) \<subseteq> seen_titles (afd_run ks api)
   \<and> distinct (map d_title (all_discussions (afd_run ks api)))
   \<and> (\<forall>d \<in> set (all_discussions (afd_run ks api)).
         d_keyword d \<in> set ks \<and> d_title d \<in> set (returned_titles api (d_keyword d)))"
proof (induction ks rule: rev_induct)
  case Nil
  show ?case by (simp add: afd_run_def)
next
  case (snoc k ks)
  let ?st = "afd_run ks api"
  from snoc.IH have ih: "set (map d_title (all_discussions ?st)) \<subseteq> seen_titles ?st"
    "distinct (map d_title (all_discussions ?st))"
    "\<forall>d \<in> set (all_discussions ?st).
       d_keyword d \<in> set ks \<and> d_title d \<in> set (returned_titles api (d_keyword d))"
    by blast+
  show ?case
  proof (cases rule: search_keyword_cases [of api k ?st])
    case (failed e)
    with ih show ?thesis by (auto simp: afd_run_snoc)
  next
    case (answered rs seen' ds' n' raised)
    from add_results_inv [OF answered(2) ih(1) ih(2)] obtain new where n:
      "set (map d_title ds') \<subseteq> seen'" "distinct (map d_title ds')"
      "ds' = all_discussions ?st @ new"
      "\<forall>d \<in> set new. d_keyword d = k \<and> d_title d \<in> set (titles rs) - seen_titles ?st"
      by blast
    have "\<forall>d \<in> set ds'. d_keyword d \<in> set (ks @ [k])
            \<and> d_title d \<in> set (returned_titles api (d_keyword d))"
      using n(3,4) ih(3) answered(5) by (auto simp: returned_titles_def)
    with n(1,2) answered(3,4) show ?thesis by (simp add: afd_run_snoc)
  qed
qed

lemma afd_run_complete:
  "\<forall>k \<in> set ks. list_all complete (results_of api k) \<Longrightarrow>
   seen_titles (afd_run ks api) = set (map d_title (all_discussions (afd_run ks api)))
   \<and> seen_titles (afd_run ks api) = (\<Union>k \<in> set ks. set (returned_titles api k))
   \<and> (\<forall>d \<in> set (all_discussions (afd_run ks api)).
         List.find (\<lambda>k. d_title d \<in> set (returned_titles api k)) ks = Some (d_keyword d))"
proof (induction ks rule: rev_induct)
  case Nil
  show ?case by (simp add: afd_run_def)
next
  case (snoc k ks)
  let ?st = "afd_run ks api"
  from snoc.prems have wf: "\<forall>k \<in> set ks. list_all complete (results_of api k)"
    and wk: "list_all complete (results_of api k)" by simp_all
  from snoc.IH [OF wf] have ih: "seen_titles ?st = set (map d_title (all_discussions ?st))"
    "seen_titles ?st = (\<Union>k \<in> set ks. set (returned_titles api k))"
    "\<forall>d \<in> set (all_discussions ?st).
       List.find (\<lambda>k. d_title d \<in> set (returned_titles api k)) ks = Some (d_keyword d)"
    by blast+
  from afd_run_inv [of ks api] have d: "distinct (map d_title (all_discussions ?st))" by blast
  show ?case
  proof (cases rule: search_keyword_cases [of api k ?st])
    case (failed e)
    then have rt: "returned_titles api k = []" by (simp add: returned_titles_def)
    from failed ih rt show ?thesis by (auto simp: afd_run_snoc find_snoc)
  next
    case (answered rs seen' ds' n' raised)
    have rt: "returned_titles api k = titles rs" using answered(5) by (simp add: returned_titles_def)
    from wk answered(5) have c: "list_all complete rs" by simp
    from add_results_complete [OF c answered(2) ih(1)]
    have w: "seen' = set (map d_title ds')" "seen' = seen_titles ?st \<union> set (titles rs)"
      by blast+
    have sub: "set (map d_title (all_discussions ?st)) \<subseteq> seen_titles ?st" using ih(1) by simp
    from add_results_inv [OF answered(2) sub d] obtain new where n:
      "ds' = all_discussions ?st @ new"
      "\<forall>d \<in> set new. d_keyword d = k \<and> d_title d \<in> set (titles rs) - seen_titles ?st"
      by blast
    have u: "seen' = (\<Union>k \<in> set (ks @ [k]). set (returned_titles api k))"
      using w(2) ih(2) rt by auto
    have f: "\<forall>d \<in> set ds'.
         List.find (\<lambda>k. d_title d \<in> set (returned_titles api k)) (ks @ [k]) = Some (d_keyword d)"
    proof
      fix d assume "d \<in> set ds'"
      then consider "d \<in> set (all_discussions ?st)" | "d \<in> set new" using n(1) by auto
      then show "List.find (\<lambda>k. d_title d \<in> set (returned_titles api k)) (ks @ [k])
                   = Some (d_keyword d)"
      proof cases
        case 1
        with ih(3) show ?thesis by (simp add: find_snoc)
      next
        case 2
        with n(2) have dk: "d_keyword d = k" "d_title d \<in> set (returned_titles api k)"
          "d_title d \<notin> seen_titles ?st" using rt by auto
        from dk(3) ih(2) have "List.find (\<lambda>k. d_title d \<in> set (returned_titles api k)) ks = None"
          by (simp add: find_None_iff')
        with dk show ?thesis by (simp add: find_snoc)
      qed
    qed
    from w(1) u f answered(3,4) show ?thesis by (simp add: afd_run_snoc)
  qed
qed

text \<open>
  Claim C10, as the code has it.  Whatever the searches return, the titles of the
  discussions \<open>get_afd_discussions_ai\<close> returns are pairwise distinct, and each entry
  records a keyword of the list whose search returned its title.  When every search
  result carries a title and a snippet, the titles listed are exactly the titles
  some search returned (each is listed once), and each entry records the first
  keyword of the list whose search returned its title.
\<close>

theorem get_afd_discussions_ai_distinct_first_keyword:
  "distinct (map d_title (get_afd_discussions_ai api))
   \<and> (\<forall>d \<in> set (get_afd_discussions_ai api).
         d_keyword d \<in> set afd_keywords \<and> d_title d \<in> set (returned_titles api (d_keyword d)))
   \<and> ((\<forall>k \<in> set afd_keywords. list_all complete (results_of api k)) \<longrightarrow>
        set (map d_title (get_afd_discussions_ai api))
          = (\<Union>k \<in> set afd_keywords. set (returned_titles api k))
        \<and> (\<forall>d \<in> set (get_afd_discussions_ai api).
              List.find (\<lambda>k. d_title d \<in> set (returned_titles api k)) afd_keywords
                = Some (d_keyword d)))"
proof -
  let ?st = "afd_run afd_keywords api"
  from afd_run_inv [of afd_keywords api]
  have g: "distinct (map d_title (all_discussions ?st))"
    "\<forall>d \<in> set (all_discussions ?st).
       d_keyword d \<in> set afd_keywords \<and> d_title d \<in> set (returned_titles api (d_keyword d))"
    by blast+
  have w: "(\<forall>k \<in> set afd_keywords. list_all complete (results_of api k)) \<longrightarrow>
        set (map d_title (all_discussions ?st))
          = (\<Union>k \<in> set afd_keywords. set (returned_titles api k))
        \<and> (\<forall>d \<in> set (all_discussions ?st).
              List.find (\<lambda>k. d_title d \<in> set (returned_titles api k)) afd_keywords
                = Some (d_keyword d))"
  proof
    assume "\<forall>k \<in> set afd_keywords. list_all complete (results_of api k)"
    from afd_run_complete [OF this]
    have i: "seen_titles ?st = set (map d_title (all_discussions ?st))"
      "seen_titles ?st = (\<Union>k \<in> set afd_keywords. set (returned_titles api k))"
      "\<forall>d \<in> set (all_discussions ?st).
         List.find (\<lambda>k. d_title d \<in> set (returned_titles api k)) afd_keywords
           = Some (d_keyword d)"
      by blast+
    from i(1) i(2) have "set (map d_title (all_discussions ?st))
          = (\<Union>k \<in> set afd_keywords. set (returned_titles api k))" by simp
    with i(3) show "set (map d_title (all_discussions ?st))
          = (\<Union>k \<in> set afd_keywords. set (returned_titles api k))
        \<and> (\<forall>d \<in> set (all_discussions ?st).
              List.find (\<lambda>k. d_title d \<in> set (returned_titles api k)) afd_keywords
                = Some (d_keyword d))" by (intro conjI)
  qed
  from g w show ?thesis unfolding get_afd_discussions_ai_def by (intro conjI)
qed

definition two_hits_api :: "string \<Rightarrow> search_result list http" where
  "two_hits_api k =
     (if k = ''AI-generated''
      then Response 200 (Some [\<lparr>sr_title = Some ''T'', sr_snippet = Some ''s'',
                                 sr_timestamp = None, sr_wordcount = None\<rparr>])
      else if k = ''ChatGPT''
      then Response 200 (Some [\<lparr>sr_title = Some ''T'', sr_snippet = Some ''s'',
                                 sr_timestamp = None, sr_wordcount = None\<rparr>,
                               \<lparr>sr_title = Some ''U'', sr_snippet = Some ''u'',
                                 sr_timestamp = Some ''2025'', sr_wordcount = Some 3\<rparr>])
      else if k = ''GPT'' then NetworkFailure ''timed out''
      else Response 200 (Some []))"

theorem get_afd_discussions_ai_distinct_first_keyword_witness:
  "(list_all (\<lambda>k. list_all complete (results_of two_hits_api k)) afd_keywords)
   \<and> get_afd_discussions_ai two_hits_api
     = [\<lparr>d_title = ''T'', d_snippet = ''s'', d_keyword = ''AI-generated'', d_timestamp = [],
         d_wordcount = 0\<rparr>,
        \<lparr>d_title = ''U'', d_snippet = ''u'', d_keyword = ''ChatGPT'', d_timestamp = ''2025'',
         d_wordcount = 3\<rparr>]
   \<and> distinct [''T'', ''U'']
   \<and> List.find (\<lambda>k. ''T'' \<in> set (returned_titles two_hits_api k)) afd_keywords
       = Some ''AI-generated''
   \<and> List.find (\<lambda>k. ''U'' \<in> set (returned_titles two_hits_api k)) afd_keywords
       = Some ''ChatGPT''"
proof -
  have h: "list_all (\<lambda>k. list_all complete (results_of two_hits_api k)) afd_keywords"
    by code_simp
  then have h': "\<forall>k \<in> set afd_keywords. list_all complete (results_of two_hits_api k)"
    by (simp add: list_all_iff)
  have e: "get_afd_discussions_ai two_hits_api
     = [\<lparr>d_title = ''T'', d_snippet = ''s'', d_keyword = ''AI-generated'', d_timestamp = [],
         d_wordcount = 0\<rparr>,
        \<lparr>d_title = ''U'', d_snippet = ''u'', d_keyword = ''ChatGPT'', d_timestamp = ''2025'',
         d_wordcount = 3\<rparr>]"
    by code_simp
  from get_afd_discussions_ai_distinct_first_keyword [of two_hits_api] h'
  have "\<forall>d \<in> set (get_afd_discussions_ai two_hits_api).
              List.find (\<lambda>k. d_title d \<in> set (returned_titles two_hits_api k)) afd_keywords
                = Some (d_keyword d)" by blast
  then have f: "List.find (\<lambda>k. ''T'' \<in> set (returned_titles two_hits_api k)) afd_keywords
       = Some ''AI-generated''"
    "List.find (\<lambda>k. ''U'' \<in> set (returned_titles two_hits_api k)) afd_keywords
       = Some ''ChatGPT''"
    unfolding e by simp_all
  from h e f show ?thesis by simp
qed

definition missing_snippet_api :: "string \<Rightarrow> search_result list http" where
  "missing_snippet_api k =
     (if k = ''AI-generated''
      then Response 200 (Some [\<lparr>sr_title = Some ''T'', sr_snippet = None,
                                 sr_timestamp = None, sr_wordcount = None\<rparr>])
      else if k = ''ChatGPT''
      then Response 200 (Some [\<lparr>sr_title = Some ''T'', sr_snippet = Some ''s'',
                                 sr_timestamp = None, sr_wordcount = None\<rparr>])
      else Response 200 (Some []))"

definition missing_title_api :: "string \<Rightarrow> search_result list http" where
  "missing_title_api k =
     (if k = ''AI-generated''
      then Response 200 (Some [\<lparr>sr_title = None, sr_snippet = Some ''x'',
                                 sr_timestamp = None, sr_wordcount = None\<rparr>,
                               \<lparr>sr_title = Some ''T'', sr_snippet = Some ''s'',
                                 sr_timestamp = None, sr_wordcount = None\<rparr>])
      else if k = ''ChatGPT''
      then Response 200 (Some [\<lparr>sr_title = Some ''T'', sr_snippet = Some ''s'',
                                 sr_timestamp = None, sr_wordcount = None\<rparr>])
      else Response 200 (Some []))"

text \<open>
  Claim C10 as stated fails when a search result lacks a field.  In the first run
  the title \<open>T\<close> is returned by two searches and listed by none: the first result has
  no snippet, so its title is marked as seen and the \<open>KeyError\<close> ends that keyword.
  In the second run the first keyword's search returns \<open>T\<close> after a result without
  title, and the entry for \<open>T\<close> records the second keyword.
\<close>

theorem get_afd_discussions_ai_drops_seen_title:
  "get_afd_discussions_ai missing_snippet_api = []
   \<and> returned_titles missing_snippet_api ''AI-generated'' = [''T'']
   \<and> returned_titles missing_snippet_api ''ChatGPT'' = [''T'']
   \<and> map d_keyword (get_afd_discussions_ai missing_title_api) = [''ChatGPT'']
   \<and> map d_title (get_afd_discussions_ai missing_title_api) = [''T'']
   \<and> returned_titles missing_title_api ''AI-generated'' = [''T'']"
  by code_simp

section \<open>Failed fetches\<close>
















end
